theory Spec2Isabelle
  imports Main "HOL-Library.Word" "HOL-Library.Multiset" "HOL-Library.Stream"
begin

unbundle bit_operations_syntax

section \<open>Machine integers, undefined behaviour, the random number stream\<close>

text \<open>
  Every integer of the hash-table engine is a \<^verbatim>\<open>uint32_t\<close>: addition, subtraction and
  multiplication wrap around modulo \<open>2 ^ 32\<close>, as the operations of \<^typ>\<open>32 word\<close> do.
\<close>

type_synonym u32 = "32 word"

text \<open>
  What C++ leaves undefined is an error value of the model: a remainder by zero, a shift
  by the word width or more, an array access outside of the allocated array. \<open>OutOfFuel\<close>
  is the answer of a call that has not returned within the given number of nested steps
  (see the tables below).
\<close>

datatype error = DivisionByZero | ShiftTooWide | IndexOutOfRange | OutOfFuel

text \<open>
  \<^verbatim>\<open>rand()\<close> belongs to the C library. The values it is going to return, converted to
  \<^verbatim>\<open>uint32_t\<close> as \<^verbatim>\<open>rand() % P\<close> converts them, are a stream, which is a parameter of
  the model; a call of \<^verbatim>\<open>rand()\<close> takes the head of the stream.
\<close>

type_synonym rand_state = "u32 stream"

section \<open>The hash functions\<close>

text \<open>
  The classes \<^verbatim>\<open>DivisionHashFunction\<close>, \<^verbatim>\<open>MultiplicationHashFunction\<close> and
  \<^verbatim>\<open>UniversalHashFunction\<close>, with their fields: \<open>M\<close> for all three, \<open>R\<close> for the second,
  \<open>P\<close>, \<open>A\<close> and \<open>B\<close> for the third. The two source files of the engine declare them with
  the same text.
\<close>

datatype HashFunction =
    DivisionHashFunction u32
  | MultiplicationHashFunction u32 u32
  | UniversalHashFunction u32 u32 u32 u32

definition W :: u32 where
  "W = 32"

text \<open>
  \<^verbatim>\<open>A = (static_cast<uint64_t>(1) << W) / 1.6180339\<close>: the quotient of \<open>2 ^ 32\<close> by the
  written constant in IEEE double arithmetic, truncated to 32 bits.
\<close>

definition A_fib :: u32 where
  "A_fib = 2654435915"

text \<open>\<^verbatim>\<open>operator()(key)\<close> of the three classes.\<close>

fun hash_apply :: "HashFunction \<Rightarrow> u32 \<Rightarrow> error + u32" where
  "hash_apply (DivisionHashFunction M) key =
     (if M = 0 then Inl DivisionByZero else Inr (key mod M))"
| "hash_apply (MultiplicationHashFunction M R) key =
     (if 32 \<le> unat (W - R) then Inl ShiftTooWide
      else Inr (drop_bit (unat (W - R)) (A_fib * key)))"
| "hash_apply (UniversalHashFunction M P A B) key =
     (if P = 0 \<or> M = 0 then Inl DivisionByZero
      else Inr (((A * key + B) mod P) mod M))"

text \<open>
  The loop of \<^verbatim>\<open>MultiplicationHashFunction::OnHashSizeChange\<close>:
  \<^verbatim>\<open>for (R = 0; (m = (m >> 1)); ++R) ;\<close>
\<close>

function OnHashSizeChange_loop :: "u32 \<Rightarrow> u32 \<Rightarrow> u32" where
  "OnHashSizeChange_loop m R =
     (if drop_bit 1 m \<noteq> 0 then OnHashSizeChange_loop (drop_bit 1 m) (R + 1) else R)"
  by pat_completeness auto
termination
proof (relation "measure (\<lambda>(m, R). unat m)")
  show "wf (measure (\<lambda>(m :: u32, R :: u32). unat m))"
    by simp
next
  fix m R :: u32
  assume "drop_bit 1 m \<noteq> 0"
  then have "m \<noteq> 0"
    by auto
  then have "unat m \<noteq> 0"
    by (simp add: unat_eq_0)
  then have "unat m div 2 < unat m"
    by simp
  then show "((drop_bit 1 m, R + 1), (m, R)) \<in> measure (\<lambda>(m, R). unat m)"
    by (simp add: drop_bit_eq_div unat_div)
qed

declare OnHashSizeChange_loop.simps [simp del]

text \<open>
  \<^verbatim>\<open>UniversalHashFunction::is_prime\<close>. The loop keeps \<open>i\<close>, its square and the next
  difference of squares; a remainder by \<open>i\<close> or by \<open>i + 2\<close> is undefined when the divisor
  is zero, and \<^verbatim>\<open>||\<close> evaluates its second operand only when the first is false.
\<close>

function is_prime_loop :: "u32 \<Rightarrow> u32 \<Rightarrow> u32 \<Rightarrow> u32 \<Rightarrow> error + bool" where
  "is_prime_loop n i i_sq i_sq_step =
     (if i_sq \<le> n then
        (if i = 0 then Inl DivisionByZero
         else if n mod i = 0 then Inr False
         else if i + 2 = 0 then Inl DivisionByZero
         else if n mod (i + 2) = 0 then Inr False
         else is_prime_loop n (i + 6) (i_sq + i_sq_step) (i_sq_step + 72))
      else Inr True)"
  by pat_completeness auto

text \<open>
  The loop ends whatever its variables hold, also where they wrap around: \<open>i\<close> advances
  by 6 modulo \<open>2 ^ 32\<close>, so it reaches 0 or 1, where the loop is left at the latest, and
  the number of steps to get there decreases.
\<close>

definition steps_to_unit :: "nat \<Rightarrow> nat" where
  "steps_to_unit a = (LEAST k. (a + 6 * k) mod 4294967296 < 2)"

lemma reach_multiple:
  fixes a T :: nat
  assumes "a mod 6 = T mod 6" "a \<le> T"
  shows "a + 6 * ((T - a) div 6) = T"
proof -
  have "6 dvd T - a"
    using mod_eq_dvd_iff_nat [of a T 6] assms by simp
  then have "6 * ((T - a) div 6) = T - a"
    by simp
  with assms(2) show ?thesis
    by simp
qed

lemma steps_exists:
  fixes a :: nat
  assumes "a < 4294967296"
  shows "\<exists>k. (a + 6 * k) mod 4294967296 < 2"
proof -
  have "a mod 6 < 6"
    by simp
  then consider "a mod 6 = 0" | "a mod 6 = 1" | "a mod 6 = 2"
    | "a mod 6 = 3" | "a mod 6 = 4" | "a mod 6 = 5"
    by linarith
  then obtain T where T: "a mod 6 = T mod 6" "a \<le> T" "T mod 4294967296 < 2"
  proof cases
    case 1
    show ?thesis
      by (rule that [of 12884901888]) (use 1 assms in simp_all)
  next
    case 2
    show ?thesis
      by (rule that [of 12884901889]) (use 2 assms in simp_all)
  next
    case 3
    show ?thesis
      by (rule that [of 8589934592]) (use 3 assms in simp_all)
  next
    case 4
    show ?thesis
      by (rule that [of 8589934593]) (use 4 assms in simp_all)
  next
    case 5
    show ?thesis
      by (rule that [of 4294967296]) (use 5 assms in simp_all)
  next
    case 6
    show ?thesis
      by (rule that [of 4294967297]) (use 6 assms in simp_all)
  qed
  have "(a + 6 * ((T - a) div 6)) mod 4294967296 < 2"
    using reach_multiple [OF T(1,2)] T(3) by simp
  then show ?thesis ..
qed

lemma steps_to_unit_less:
  assumes "2 \<le> a" "a < 4294967296"
  shows "steps_to_unit ((a + 6) mod 4294967296) < steps_to_unit a"
proof -
  let ?P = "\<lambda>a k. (a + 6 * k) mod 4294967296 < (2::nat)"
  have P: "?P a (steps_to_unit a)"
    unfolding steps_to_unit_def using steps_exists [OF assms(2)] by (rule LeastI_ex)
  have "steps_to_unit a \<noteq> 0"
  proof
    assume "steps_to_unit a = 0"
    with P have "a mod 4294967296 < 2" by simp
    with assms show False by simp
  qed
  then obtain k where k: "steps_to_unit a = Suc k"
    using not0_implies_Suc by blast
  have "((a + 6) mod 4294967296 + 6 * k) mod 4294967296 = (a + 6 + 6 * k) mod 4294967296"
    by (rule mod_add_left_eq)
  also have "a + 6 + 6 * k = a + 6 * Suc k"
    by simp
  finally have "?P ((a + 6) mod 4294967296) k"
    using P k by simp
  then have "steps_to_unit ((a + 6) mod 4294967296) \<le> k"
    unfolding steps_to_unit_def by (rule Least_le)
  with k show ?thesis by simp
qed

lemma unat_u32_less: "unat (i :: u32) < 4294967296"
  using unsigned_less [of i, where 'a = nat] by simp

lemma unat_u32_ge_2: "(i :: u32) \<noteq> 0 \<Longrightarrow> i \<noteq> 1 \<Longrightarrow> 2 \<le> unat i"
  by (metis One_nat_def Suc_1 Suc_leI less_Suc_eq_le not_less_eq_eq unat_gt_0 unat_1
      word_unat_eq_iff le_neq_implies_less)

lemma unat_u32_succ: "(p :: u32) \<noteq> - 1 \<Longrightarrow> unat (p + 1) = Suc (unat p)"
  by (metis add.commute max_word_wrap unatSuc)

termination is_prime_loop
proof (relation "measure (\<lambda>(n, i, i_sq, i_sq_step). steps_to_unit (unat i))")
  show "wf (measure (\<lambda>(n :: u32, i :: u32, i_sq :: u32, i_sq_step :: u32). steps_to_unit (unat i)))"
    by simp
next
  fix n i i_sq i_sq_step :: u32
  assume "i \<noteq> 0" "n mod i \<noteq> 0"
  then have "i \<noteq> 1"
    by auto
  with \<open>i \<noteq> 0\<close> have "2 \<le> unat i"
    by (rule unat_u32_ge_2)
  then have "steps_to_unit ((unat i + 6) mod 4294967296) < steps_to_unit (unat i)"
    using unat_u32_less by (rule steps_to_unit_less)
  moreover have "unat (i + 6) = (unat i + 6) mod 4294967296"
    by (simp add: unat_word_ariths)
  ultimately show "((n, i + 6, i_sq + i_sq_step, i_sq_step + 72), (n, i, i_sq, i_sq_step))
      \<in> measure (\<lambda>(n, i, i_sq, i_sq_step). steps_to_unit (unat i))"
    by simp
qed

declare is_prime_loop.simps [simp del]

definition is_prime :: "u32 \<Rightarrow> error + bool" where
  "is_prime n =
     (if n mod 2 = 0 \<or> n mod 3 = 0 then Inr False else is_prime_loop n 5 25 96)"

lemma is_prime_5: "is_prime 5 = Inr True"
  by (simp add: is_prime_def is_prime_loop.simps)

text \<open>
  \<^verbatim>\<open>least_prime_larger_than\<close>: \<^verbatim>\<open>while (!is_prime(++n)) ;\<close> and \<^verbatim>\<open>return n\<close>. The counter
  wraps around at \<open>2 ^ 32\<close>, so the loop stops at 5 if nowhere before.
\<close>

function least_prime_larger_than :: "u32 \<Rightarrow> error + u32" where
  "least_prime_larger_than n =
     (case is_prime (n + 1) of
        Inl e \<Rightarrow> Inl e
      | Inr b \<Rightarrow> if b then Inr (n + 1) else least_prime_larger_than (n + 1))"
  by pat_completeness auto
termination
proof (relation "measure (\<lambda>n. unat (4 - n))")
  show "wf (measure (\<lambda>n :: u32. unat (4 - n)))"
    by simp
next
  fix n :: u32 and b :: bool
  assume "is_prime (n + 1) = Inr b" "\<not> b"
  then have "n + 1 \<noteq> 5"
    using is_prime_5 by auto
  then have nz: "4 - n \<noteq> 0"
    by auto
  have dec: "unat (x - 1) < unat x" if "x \<noteq> 0" for x :: u32
    using that by (simp add: unat_minus_one unat_gt_0)
  have "unat (4 - (n + 1)) = unat ((4 - n) - 1)"
    by simp
  also have "\<dots> < unat (4 - n)"
    using nz by (rule dec)
  finally show "(n + 1, n) \<in> measure (\<lambda>n. unat (4 - n))"
    by simp
qed

declare least_prime_larger_than.simps [simp del]

text \<open>
  \<^verbatim>\<open>OnHashSizeChange()\<close> of the three classes: nothing for division, the bit width \<open>R\<close>
  for multiplication, and for universal hashing the prime and two draws of \<^verbatim>\<open>rand()\<close>,
  each reduced modulo \<open>P\<close> (a remainder by zero would be undefined).
\<close>

fun OnHashSizeChange :: "HashFunction \<Rightarrow> rand_state \<Rightarrow> error + HashFunction \<times> rand_state" where
  "OnHashSizeChange (DivisionHashFunction M) rs = Inr (DivisionHashFunction M, rs)"
| "OnHashSizeChange (MultiplicationHashFunction M R) rs =
     Inr (MultiplicationHashFunction M (OnHashSizeChange_loop M 0), rs)"
| "OnHashSizeChange (UniversalHashFunction M P A B) rs =
     (case least_prime_larger_than M of
        Inl e \<Rightarrow> Inl e
      | Inr P' \<Rightarrow>
          if P' = 0 then Inl DivisionByZero
          else Inr (UniversalHashFunction M P' (shd rs mod P') (shd (stl rs) mod P'),
                    stl (stl rs)))"

text \<open>\<^verbatim>\<open>UpdateHashSize(m)\<close>: \<^verbatim>\<open>M = m; OnHashSizeChange();\<close>\<close>

fun set_M :: "HashFunction \<Rightarrow> u32 \<Rightarrow> HashFunction" where
  "set_M (DivisionHashFunction M) m = DivisionHashFunction m"
| "set_M (MultiplicationHashFunction M R) m = MultiplicationHashFunction m R"
| "set_M (UniversalHashFunction M P A B) m = UniversalHashFunction m P A B"

definition UpdateHashSize ::
  "HashFunction \<Rightarrow> u32 \<Rightarrow> rand_state \<Rightarrow> error + HashFunction \<times> rand_state" where
  "UpdateHashSize hf m rs = OnHashSizeChange (set_M hf m) rs"

text \<open>
  The constructors. The template parameter \<^verbatim>\<open>HASHFUNC\<close> of the chaining table names one
  of the three classes. The fields that a constructor leaves uninitialised until its
  \<^verbatim>\<open>OnHashSizeChange\<close> assigns them are 0 here. The constructor of universal hashing
  calls \<^verbatim>\<open>srand(A_BIG_PRIME_NUMBER)\<close> first: \<open>seeded\<close> is the stream of \<^verbatim>\<open>rand()\<close> that
  starts at this seed.
\<close>

datatype HASHFUNC = Division | Multiplication | Universal

fun new_HashFunction ::
  "HASHFUNC \<Rightarrow> u32 \<Rightarrow> rand_state \<Rightarrow> rand_state \<Rightarrow> error + HashFunction \<times> rand_state" where
  "new_HashFunction Division m seeded rs = Inr (DivisionHashFunction m, rs)"
| "new_HashFunction Multiplication m seeded rs =
     OnHashSizeChange (MultiplicationHashFunction m 0) rs"
| "new_HashFunction Universal m seeded rs =
     OnHashSizeChange (UniversalHashFunction m 0 0 0) seeded"

section \<open>The probing hash functions\<close>

text \<open>
  \<^verbatim>\<open>LinearProbingHashFunction\<close> holds one hash function, \<^verbatim>\<open>DoubleHashFunction\<close> two; both
  have the field \<open>M\<close> of their own.
\<close>

datatype ProbingHashFunction =
    LinearProbingHashFunction u32 HashFunction
  | DoubleHashFunction u32 HashFunction HashFunction

definition Oddify :: "u32 \<Rightarrow> u32" where
  "Oddify val = val OR 1"

text \<open>\<^verbatim>\<open>operator()(key, trial_no)\<close> of the two classes.\<close>

fun probe_apply :: "ProbingHashFunction \<Rightarrow> u32 \<Rightarrow> u32 \<Rightarrow> error + u32" where
  "probe_apply (LinearProbingHashFunction M hFunc) key trial_no =
     (case hash_apply hFunc key of
        Inl e \<Rightarrow> Inl e
      | Inr h \<Rightarrow>
          if M = 0 then Inl DivisionByZero else Inr ((h + trial_no) mod M))"
| "probe_apply (DoubleHashFunction M hFunc1 hFunc2) key trial_no =
     (case hash_apply hFunc1 key of
        Inl e \<Rightarrow> Inl e
      | Inr h1 \<Rightarrow>
          (case hash_apply hFunc2 key of
             Inl e \<Rightarrow> Inl e
           | Inr h2 \<Rightarrow>
               if M = 0 then Inl DivisionByZero
               else Inr ((h1 + trial_no * Oddify h2) mod M)))"

text \<open>
  \<^verbatim>\<open>UpdateHashSize(m)\<close> of a probing function stores \<open>m\<close> and passes it on to its hash
  functions, the first one first.
\<close>

fun UpdateHashSize_probing ::
  "ProbingHashFunction \<Rightarrow> u32 \<Rightarrow> rand_state \<Rightarrow> error + ProbingHashFunction \<times> rand_state" where
  "UpdateHashSize_probing (LinearProbingHashFunction M hFunc) m rs =
     (case UpdateHashSize hFunc m rs of
        Inl e \<Rightarrow> Inl e
      | Inr (hFunc', rs') \<Rightarrow> Inr (LinearProbingHashFunction m hFunc', rs'))"
| "UpdateHashSize_probing (DoubleHashFunction M hFunc1 hFunc2) m rs =
     (case UpdateHashSize hFunc1 m rs of
        Inl e \<Rightarrow> Inl e
      | Inr (hFunc1', rs') \<Rightarrow>
          (case UpdateHashSize hFunc2 m rs' of
             Inl e \<Rightarrow> Inl e
           | Inr (hFunc2', rs'') \<Rightarrow> Inr (DoubleHashFunction m hFunc1' hFunc2', rs'')))"

text \<open>
  The constructors of the probing functions store \<open>m\<close> and update the hash functions they
  refer to.
\<close>

definition new_LinearProbingHashFunction ::
  "u32 \<Rightarrow> HashFunction \<Rightarrow> rand_state \<Rightarrow> error + ProbingHashFunction \<times> rand_state" where
  "new_LinearProbingHashFunction m hf rs =
     (case UpdateHashSize hf m rs of
        Inl e \<Rightarrow> Inl e
      | Inr (hf', rs') \<Rightarrow> Inr (LinearProbingHashFunction m hf', rs'))"

definition new_DoubleHashFunction ::
  "u32 \<Rightarrow> HashFunction \<Rightarrow> HashFunction \<Rightarrow> rand_state
    \<Rightarrow> error + ProbingHashFunction \<times> rand_state" where
  "new_DoubleHashFunction m hf1 hf2 rs =
     (case UpdateHashSize hf1 m rs of
        Inl e \<Rightarrow> Inl e
      | Inr (hf1', rs') \<Rightarrow>
          (case UpdateHashSize hf2 m rs' of
             Inl e \<Rightarrow> Inl e
           | Inr (hf2', rs'') \<Rightarrow> Inr (DoubleHashFunction m hf1' hf2', rs'')))"

section \<open>The table with chaining\<close>

text \<open>
  \<^verbatim>\<open>template <typename HASHFUNC> class HashTable\<close> of the table-doubling file. The fields
  are \<^verbatim>\<open>length\<close>, \<^verbatim>\<open>num_entries\<close>, \<^verbatim>\<open>hashFunc\<close> and \<^verbatim>\<open>hashTable\<close>, an array of
  \<^verbatim>\<open>std::list<uint32_t>\<close>; the record carries the state of \<^verbatim>\<open>rand()\<close> as well, which
  \<^verbatim>\<open>hashFunc.UpdateHashSize\<close> advances.
\<close>

record ChainTable =
  ct_length :: u32
  ct_num_entries :: u32
  ct_hashFunc :: HashFunction
  ct_hashTable :: "u32 list list"
  ct_rand :: rand_state

definition INVALID_KEY :: u32 where
  "INVALID_KEY = 0xFFFFFFFF"

definition MIN_LENGTH :: u32 where
  "MIN_LENGTH = 8"

text \<open>
  The static \<^verbatim>\<open>find(chain, key)\<close> returns the iterator of the first element equal to
  \<open>key\<close>, here its position, and \<^verbatim>\<open>chain.end()\<close>, here \<open>None\<close>, when there is none.
  \<^verbatim>\<open>chain.erase(itr)\<close> removes the element at that position.
\<close>

fun find_iter :: "u32 list \<Rightarrow> u32 \<Rightarrow> nat option" where
  "find_iter [] key = None"
| "find_iter (x # chain) key =
     (if x = key then Some 0 else map_option Suc (find_iter chain key))"

definition erase :: "u32 list \<Rightarrow> nat \<Rightarrow> u32 list" where
  "erase chain itr = take itr chain @ drop (Suc itr) chain"

text \<open>The constructor: \<^verbatim>\<open>length(MIN_LENGTH), num_entries(0), hashFunc(length)\<close> and
  an array of \<open>length\<close> empty chains.\<close>

definition new_ChainTable :: "HASHFUNC \<Rightarrow> rand_state \<Rightarrow> rand_state \<Rightarrow> error + ChainTable" where
  "new_ChainTable H seeded rs =
     (case new_HashFunction H MIN_LENGTH seeded rs of
        Inl e \<Rightarrow> Inl e
      | Inr (hf, rs') \<Rightarrow>
          Inr \<lparr>ct_length = MIN_LENGTH, ct_num_entries = 0, ct_hashFunc = hf,
               ct_hashTable = replicate (unat MIN_LENGTH) [], ct_rand = rs'\<rparr>)"

text \<open>
  \<^verbatim>\<open>insert\<close> calls \<^verbatim>\<open>rehash\<close>, whose loops call \<^verbatim>\<open>insert\<close> for every key of the old
  table. The first argument of the three functions bounds the depth of these nested
  calls: a call that needs more answers \<open>OutOfFuel\<close>. \<open>rehash_chain_loop\<close> is the pair of
  loops of \<^verbatim>\<open>rehash\<close> over the chains of the old array, in the order of the array.
\<close>

fun insert_chain :: "nat \<Rightarrow> ChainTable \<Rightarrow> u32 \<Rightarrow> error + ChainTable"
  and rehash_chain :: "nat \<Rightarrow> ChainTable \<Rightarrow> u32 \<Rightarrow> error + ChainTable"
  and rehash_chain_loop :: "nat \<Rightarrow> u32 list \<Rightarrow> ChainTable \<Rightarrow> error + ChainTable" where
  "insert_chain 0 t key = Inl OutOfFuel"
| "insert_chain (Suc fuel) t key =
     (case (if ct_length t = ct_num_entries t then rehash_chain fuel t (2 * ct_length t)
            else Inr t) of
        Inl e \<Rightarrow> Inl e
      | Inr t' \<Rightarrow>
          (case hash_apply (ct_hashFunc t') key of
             Inl e \<Rightarrow> Inl e
           | Inr hkey \<Rightarrow>
               if unat hkey < length (ct_hashTable t') then
                 Inr (t'\<lparr>ct_hashTable :=
                            (ct_hashTable t')[unat hkey := ct_hashTable t' ! unat hkey @ [key]],
                          ct_num_entries := ct_num_entries t' + 1\<rparr>)
               else Inl IndexOutOfRange))"
| "rehash_chain 0 t new_length = Inl OutOfFuel"
| "rehash_chain (Suc fuel) t new_length =
     (if length (ct_hashTable t) < unat (ct_length t) then Inl IndexOutOfRange
      else
        (case UpdateHashSize (ct_hashFunc t) new_length (ct_rand t) of
           Inl e \<Rightarrow> Inl e
         | Inr (hf, rs) \<Rightarrow>
             rehash_chain_loop fuel (concat (take (unat (ct_length t)) (ct_hashTable t)))
               \<lparr>ct_length = new_length, ct_num_entries = 0, ct_hashFunc = hf,
                ct_hashTable = replicate (unat new_length) [], ct_rand = rs\<rparr>))"
| "rehash_chain_loop fuel [] t = Inr t"
| "rehash_chain_loop fuel (key # keys) t =
     (case insert_chain fuel t key of
        Inl e \<Rightarrow> Inl e
      | Inr t' \<Rightarrow> rehash_chain_loop fuel keys t')"

text \<open>\<^verbatim>\<open>find(key)\<close>: \<open>INVALID_KEY\<close> when the chain does not hold the key.\<close>

definition find_chain :: "ChainTable \<Rightarrow> u32 \<Rightarrow> error + u32" where
  "find_chain t key =
     (case hash_apply (ct_hashFunc t) key of
        Inl e \<Rightarrow> Inl e
      | Inr hkey \<Rightarrow>
          if unat hkey < length (ct_hashTable t) then
            (case find_iter (ct_hashTable t ! unat hkey) key of
               None \<Rightarrow> Inr INVALID_KEY
             | Some itr \<Rightarrow> Inr (ct_hashTable t ! unat hkey ! itr))
          else Inl IndexOutOfRange)"

text \<open>
  \<^verbatim>\<open>remove(key)\<close>: the chain loses the element when \<^verbatim>\<open>find\<close> has found one;
  \<^verbatim>\<open>--num_entries\<close> follows the \<^verbatim>\<open>if\<close> statement; then the table shrinks when it is longer
  than \<open>MIN_LENGTH\<close> and at most a quarter full.
\<close>

definition remove_chain :: "nat \<Rightarrow> ChainTable \<Rightarrow> u32 \<Rightarrow> error + ChainTable" where
  "remove_chain fuel t key =
     (case hash_apply (ct_hashFunc t) key of
        Inl e \<Rightarrow> Inl e
      | Inr hkey \<Rightarrow>
          if unat hkey < length (ct_hashTable t) then
            (let chain = ct_hashTable t ! unat hkey;
                 chain' = (case find_iter chain key of
                             None \<Rightarrow> chain
                           | Some itr \<Rightarrow> erase chain itr);
                 t' = t\<lparr>ct_hashTable := (ct_hashTable t)[unat hkey := chain'],
                        ct_num_entries := ct_num_entries t - 1\<rparr>
             in if ct_length t' > MIN_LENGTH \<and> ct_num_entries t' \<le> ct_length t' div 4
                then rehash_chain fuel t' (ct_length t' div 2)
                else Inr t')
          else Inl IndexOutOfRange)"

section \<open>The table with open addressing\<close>

text \<open>
  \<^verbatim>\<open>class HashTable\<close> of the open-addressing file: \<^verbatim>\<open>length\<close>, \<^verbatim>\<open>num_entries\<close>,
  \<^verbatim>\<open>prHashFunc\<close> and \<^verbatim>\<open>hashTable\<close>, an array of \<^verbatim>\<open>uint32_t\<close>, in which two values mark
  the slots that hold no key; and the state of \<^verbatim>\<open>rand()\<close>, as above.
\<close>

record OpenTable =
  ot_length :: u32
  ot_num_entries :: u32
  ot_prHashFunc :: ProbingHashFunction
  ot_hashTable :: "u32 list"
  ot_rand :: rand_state

definition FREE_MARKER :: u32 where
  "FREE_MARKER = 0xFFFFFFFF"

definition DEL_MARKER :: u32 where
  "DEL_MARKER = 0xFFFFFFFF - 1"

definition new_hash_table :: "u32 \<Rightarrow> u32 list" where
  "new_hash_table len = replicate (unat len) FREE_MARKER"

text \<open>
  \<^verbatim>\<open>load_factor()\<close> divides \<open>num_entries\<close> by \<open>length\<close> as doubles and the callers compare the
  quotient with 0.5 and with 0.125. Both counts are below \<open>2 ^ 32\<close>, so their conversion
  is exact, the rounded quotient lies on the same side of a power of two as the exact
  one, and the comparisons are those of the exact quotient. With \<open>length = 0\<close> the
  quotient is infinite for \<open>num_entries > 0\<close> and not a number otherwise, which compares
  false with everything.
\<close>

definition load_factor_ge_half :: "OpenTable \<Rightarrow> bool" where
  "load_factor_ge_half t =
     (if ot_length t = 0 then ot_num_entries t \<noteq> 0
      else unat (ot_length t) \<le> 2 * unat (ot_num_entries t))"

definition load_factor_le_eighth :: "OpenTable \<Rightarrow> bool" where
  "load_factor_le_eighth t =
     (ot_length t \<noteq> 0 \<and> 8 * unat (ot_num_entries t) \<le> unat (ot_length t))"

text \<open>
  The loop of \<^verbatim>\<open>find_index\<close>, from the trial number \<open>probe\<close> on: it returns the index
  where the key is, and \<open>length\<close> when it meets a free slot or has made \<open>length\<close> trials.
\<close>

function find_index_loop :: "OpenTable \<Rightarrow> u32 \<Rightarrow> u32 \<Rightarrow> error + u32" where
  "find_index_loop t key probe =
     (case probe_apply (ot_prHashFunc t) key probe of
        Inl e \<Rightarrow> Inl e
      | Inr index \<Rightarrow>
          if \<not> unat index < length (ot_hashTable t) then Inl IndexOutOfRange
          else if ot_hashTable t ! unat index = key then Inr index
          else if ot_hashTable t ! unat index \<noteq> FREE_MARKER \<and> probe + 1 < ot_length t
          then find_index_loop t key (probe + 1)
          else Inr (ot_length t))"
  by pat_completeness auto
termination
proof (relation "measure (\<lambda>(t, key, probe).
    if probe = - 1 then 4294967296 else unat (ot_length t) - unat probe)")
  show "wf (measure (\<lambda>(t :: OpenTable, key :: u32, probe :: u32).
    if probe = - 1 then 4294967296 else unat (ot_length t) - unat probe))"
    by simp
next
  fix t :: OpenTable and key probe index :: u32
  assume "ot_hashTable t ! unat index \<noteq> FREE_MARKER \<and> probe + 1 < ot_length t"
  then have less: "probe + 1 < ot_length t"
    by simp
  show "((t, key, probe + 1), (t, key, probe)) \<in> measure (\<lambda>(t, key, probe).
    if probe = - 1 then 4294967296 else unat (ot_length t) - unat probe)"
  proof (cases "probe = - 1")
    case True
    then have "probe + 1 = 0"
      by simp
    moreover have "unat (ot_length t) < 4294967296"
      by (rule unat_u32_less)
    ultimately show ?thesis
      using True by simp
  next
    case False
    then have "unat (probe + 1) = Suc (unat probe)"
      by (rule unat_u32_succ)
    moreover have "unat (probe + 1) < unat (ot_length t)"
      using less by (simp add: word_less_nat_alt)
    moreover have "probe + 1 \<noteq> - 1"
      using less by (metis word_order.extremum_strict)
    ultimately show ?thesis
      using False by simp
  qed
qed

declare find_index_loop.simps [simp del]

definition find_index :: "OpenTable \<Rightarrow> u32 \<Rightarrow> error + u32" where
  "find_index t key = find_index_loop t key 0"

text \<open>
  The constructor takes the probing function that the caller has built and sets it to
  the initial length.
\<close>

definition new_OpenTable :: "ProbingHashFunction \<Rightarrow> rand_state \<Rightarrow> error + OpenTable" where
  "new_OpenTable prh rs =
     (case UpdateHashSize_probing prh MIN_LENGTH rs of
        Inl e \<Rightarrow> Inl e
      | Inr (prh', rs') \<Rightarrow>
          Inr \<lparr>ot_length = MIN_LENGTH, ot_num_entries = 0, ot_prHashFunc = prh',
               ot_hashTable = new_hash_table MIN_LENGTH, ot_rand = rs'\<rparr>)"

text \<open>
  The loop of \<^verbatim>\<open>insert\<close>, from the trial number \<open>probe\<close> on. It has no bound of its own:
  it ends at a slot that holds the key (\<open>None\<close>: \<^verbatim>\<open>insert\<close> returns) or at a slot that
  holds \<open>FREE_MARKER\<close> (the index of the slot). Its first argument counts the trials
  that remain before the model gives up with \<open>OutOfFuel\<close>.
\<close>

fun insert_loop :: "nat \<Rightarrow> OpenTable \<Rightarrow> u32 \<Rightarrow> u32 \<Rightarrow> error + u32 option" where
  "insert_loop 0 t key probe = Inl OutOfFuel"
| "insert_loop (Suc fuel) t key probe =
     (case probe_apply (ot_prHashFunc t) key probe of
        Inl e \<Rightarrow> Inl e
      | Inr index \<Rightarrow>
          if \<not> unat index < length (ot_hashTable t) then Inl IndexOutOfRange
          else if ot_hashTable t ! unat index = key then Inr None
          else if ot_hashTable t ! unat index \<noteq> FREE_MARKER
          then insert_loop fuel t key (probe + 1)
          else Inr (Some index))"

text \<open>
  \<^verbatim>\<open>insert\<close> and \<^verbatim>\<open>rehash\<close>, which call each other as in the chaining table; the first
  argument bounds the depth of the nested calls and the trials of each probe loop.
  \<open>rehash_open_loop\<close> is the loop of \<^verbatim>\<open>rehash\<close> over the old array.
\<close>

fun insert_open :: "nat \<Rightarrow> OpenTable \<Rightarrow> u32 \<Rightarrow> error + OpenTable"
  and rehash_open :: "nat \<Rightarrow> OpenTable \<Rightarrow> u32 \<Rightarrow> error + OpenTable"
  and rehash_open_loop :: "nat \<Rightarrow> u32 list \<Rightarrow> OpenTable \<Rightarrow> error + OpenTable" where
  "insert_open 0 t key = Inl OutOfFuel"
| "insert_open (Suc fuel) t key =
     (case (if load_factor_ge_half t then rehash_open fuel t (2 * ot_length t) else Inr t) of
        Inl e \<Rightarrow> Inl e
      | Inr t' \<Rightarrow>
          (case insert_loop fuel t' key 0 of
             Inl e \<Rightarrow> Inl e
           | Inr None \<Rightarrow> Inr t'
           | Inr (Some index) \<Rightarrow>
               Inr (t'\<lparr>ot_hashTable := (ot_hashTable t')[unat index := key],
                        ot_num_entries := ot_num_entries t' + 1\<rparr>)))"
| "rehash_open 0 t new_length = Inl OutOfFuel"
| "rehash_open (Suc fuel) t new_length =
     (if length (ot_hashTable t) < unat (ot_length t) then Inl IndexOutOfRange
      else
        (case UpdateHashSize_probing (ot_prHashFunc t) new_length (ot_rand t) of
           Inl e \<Rightarrow> Inl e
         | Inr (prh, rs) \<Rightarrow>
             rehash_open_loop fuel (take (unat (ot_length t)) (ot_hashTable t))
               \<lparr>ot_length = new_length, ot_num_entries = 0, ot_prHashFunc = prh,
                ot_hashTable = new_hash_table new_length, ot_rand = rs\<rparr>))"
| "rehash_open_loop fuel [] t = Inr t"
| "rehash_open_loop fuel (key # keys) t =
     (if key \<noteq> FREE_MARKER \<and> key \<noteq> DEL_MARKER then
        (case insert_open fuel t key of
           Inl e \<Rightarrow> Inl e
         | Inr t' \<Rightarrow> rehash_open_loop fuel keys t')
      else rehash_open_loop fuel keys t)"

text \<open>\<^verbatim>\<open>find(key)\<close>: the key itself, or \<open>INVALID_KEY\<close>, which is \<open>FREE_MARKER\<close>.\<close>

definition find_open :: "OpenTable \<Rightarrow> u32 \<Rightarrow> error + u32" where
  "find_open t key =
     (case find_index t key of
        Inl e \<Rightarrow> Inl e
      | Inr index \<Rightarrow>
          if index < ot_length t then
            (if unat index < length (ot_hashTable t) then Inr (ot_hashTable t ! unat index)
             else Inl IndexOutOfRange)
          else Inr FREE_MARKER)"

text \<open>
  \<^verbatim>\<open>remove(key)\<close>: nothing when \<^verbatim>\<open>find_index\<close> answers \<open>length\<close>; otherwise the slot
  becomes \<open>DEL_MARKER\<close>, \<open>num_entries\<close> goes down, and the table shrinks to a quarter when
  that is no less than \<open>MIN_LENGTH\<close> and the load is at most 0.125.
\<close>

definition remove_open :: "nat \<Rightarrow> OpenTable \<Rightarrow> u32 \<Rightarrow> error + OpenTable" where
  "remove_open fuel t key =
     (case find_index t key of
        Inl e \<Rightarrow> Inl e
      | Inr index \<Rightarrow>
          if index \<ge> ot_length t then Inr t
          else if \<not> unat index < length (ot_hashTable t) then Inl IndexOutOfRange
          else
            (let t' = t\<lparr>ot_hashTable := (ot_hashTable t)[unat index := DEL_MARKER],
                        ot_num_entries := ot_num_entries t - 1\<rparr>
             in if ot_length t' div 4 \<ge> MIN_LENGTH \<and> load_factor_le_eighth t'
                then rehash_open fuel t' (ot_length t' div 4)
                else Inr t'))"

section \<open>The loops of the test driver\<close>

text \<open>
  \<^verbatim>\<open>run_test\<close> of both files inserts the numbers of an array one after the other and
  removes them in the same way: \<^verbatim>\<open>for (i = 0; i < N; ++i) ht.insert(nums[i]);\<close>
\<close>

fun insert_all_chain :: "nat \<Rightarrow> u32 list \<Rightarrow> ChainTable \<Rightarrow> error + ChainTable" where
  "insert_all_chain fuel [] t = Inr t"
| "insert_all_chain fuel (key # nums) t =
     (case insert_chain fuel t key of
        Inl e \<Rightarrow> Inl e
      | Inr t' \<Rightarrow> insert_all_chain fuel nums t')"

fun remove_all_chain :: "nat \<Rightarrow> u32 list \<Rightarrow> ChainTable \<Rightarrow> error + ChainTable" where
  "remove_all_chain fuel [] t = Inr t"
| "remove_all_chain fuel (key # nums) t =
     (case remove_chain fuel t key of
        Inl e \<Rightarrow> Inl e
      | Inr t' \<Rightarrow> remove_all_chain fuel nums t')"

fun insert_all_open :: "nat \<Rightarrow> u32 list \<Rightarrow> OpenTable \<Rightarrow> error + OpenTable" where
  "insert_all_open fuel [] t = Inr t"
| "insert_all_open fuel (key # nums) t =
     (case insert_open fuel t key of
        Inl e \<Rightarrow> Inl e
      | Inr t' \<Rightarrow> insert_all_open fuel nums t')"

fun remove_all_open :: "nat \<Rightarrow> u32 list \<Rightarrow> OpenTable \<Rightarrow> error + OpenTable" where
  "remove_all_open fuel [] t = Inr t"
| "remove_all_open fuel (key # nums) t =
     (case remove_open fuel t key of
        Inl e \<Rightarrow> Inl e
      | Inr t' \<Rightarrow> remove_all_open fuel nums t')"

text \<open>
  One call after the other: the next call runs on the table that the call before has
  returned, and nothing runs after undefined behaviour or after a call that has not
  returned.
\<close>

definition and_then :: "error + 'a \<Rightarrow> ('a \<Rightarrow> error + 'b) \<Rightarrow> error + 'b" where
  "and_then r f = (case r of Inl e \<Rightarrow> Inl e | Inr t \<Rightarrow> f t)"


section \<open>Predicates of the specification\<close>

text \<open>
  What the chaining table relies on: the hash function maps every key to the index of a
  chain of the array, and every key that the table holds is in the chain of its index.
\<close>

definition chain_inv :: "ChainTable \<Rightarrow> bool" where
  "chain_inv t \<longleftrightarrow>
     (\<forall>key. \<exists>h. hash_apply (ct_hashFunc t) key = Inr h \<and> unat h < length (ct_hashTable t))
     \<and> (\<forall>k \<in> set (concat (ct_hashTable t)).
          \<exists>h. hash_apply (ct_hashFunc t) k = Inr h \<and> k \<in> set (ct_hashTable t ! unat h))"

text \<open>
  The table in which every slot holds a tombstone. It is the table of length 8 after the
  keys 0 to 3 have been inserted and removed, and then the keys 4 to 7.
\<close>

definition tombstones :: OpenTable where
  "tombstones =
     \<lparr>ot_length = 8, ot_num_entries = 0,
      ot_prHashFunc = LinearProbingHashFunction 8 (DivisionHashFunction 8),
      ot_hashTable = replicate 8 DEL_MARKER, ot_rand = sconst 0\<rparr>"

text \<open>
  What the open-addressing table relies on, for a table of length \<open>2 ^ r\<close>: the probing
  function returns an index of the array for every key and every trial number, and the
  first \<open>2 ^ r\<close> trials of a key reach every index.
\<close>

definition probing_ok :: "ProbingHashFunction \<Rightarrow> nat \<Rightarrow> bool" where
  "probing_ok prh r \<longleftrightarrow>
     (\<forall>key trial. \<exists>index. probe_apply prh key trial = Inr index \<and> unat index < 2 ^ r)
     \<and> (\<forall>key s. s < 2 ^ r \<longrightarrow>
          (\<exists>t<2 ^ r. \<exists>index. probe_apply prh key (of_nat t) = Inr index \<and> unat index = s))"

text \<open>
  Primality of a natural number, and the criterion that the trial division of
  \<^verbatim>\<open>is_prime\<close> decides: no divisor 2 or 3, and no divisor \<open>6 j + 5\<close> or \<open>6 j + 7\<close> up to the
  square root.
\<close>

definition prime_nat :: "nat \<Rightarrow> bool" where
  "prime_nat p \<longleftrightarrow> 1 < p \<and> (\<forall>d. d dvd p \<longrightarrow> d = 1 \<or> d = p)"

definition wheel_ok :: "nat \<Rightarrow> bool" where
  "wheel_ok n \<longleftrightarrow> n mod 2 \<noteq> 0 \<and> n mod 3 \<noteq> 0
     \<and> (\<forall>j. (5 + 6 * j)\<^sup>2 \<le> n \<longrightarrow> \<not> (5 + 6 * j) dvd n \<and> \<not> (7 + 6 * j) dvd n)"

text \<open>
  Repeated squaring modulo \<open>N\<close>: \<open>square_iter N x k\<close> is \<open>x\<close> to the power \<open>2 ^ k\<close>, modulo \<open>N\<close>.
\<close>

fun square_iter :: "nat \<Rightarrow> nat \<Rightarrow> nat \<Rightarrow> nat" where
  "square_iter N x 0 = x mod N"
| "square_iter N x (Suc k) = square_iter N (x * x mod N) k"

section \<open>Evaluation with a numeral for the fuel\<close>

lemmas insert_loop_numeral =
  insert_loop.simps(2) [of "pred_numeral k" for k, unfolded numeral_eq_Suc [symmetric]]

lemmas insert_open_numeral =
  insert_open.simps(2) [of "pred_numeral k" for k, unfolded numeral_eq_Suc [symmetric]]

lemmas rehash_open_numeral =
  rehash_open.simps(2) [of "pred_numeral k" for k, unfolded numeral_eq_Suc [symmetric]]

lemmas insert_chain_numeral =
  insert_chain.simps(2) [of "pred_numeral k" for k, unfolded numeral_eq_Suc [symmetric]]

lemmas rehash_chain_numeral =
  rehash_chain.simps(2) [of "pred_numeral k" for k, unfolded numeral_eq_Suc [symmetric]]

lemma replicate_numeral:
  "replicate (numeral k) x = x # replicate (pred_numeral k) x"
  by (simp add: numeral_eq_Suc)

lemmas fuel_numeral =
  insert_loop_numeral insert_open_numeral rehash_open_numeral
  insert_chain_numeral rehash_chain_numeral replicate_numeral

lemmas table_defs =
  new_OpenTable_def new_ChainTable_def UpdateHashSize_def MIN_LENGTH_def new_hash_table_def
  FREE_MARKER_def DEL_MARKER_def INVALID_KEY_def load_factor_ge_half_def
  load_factor_le_eighth_def remove_open_def remove_chain_def find_index_def find_open_def
  find_chain_def erase_def Let_def word_le_nat_alt word_less_nat_alt
  find_index_loop.simps OnHashSizeChange_loop.simps is_prime_def is_prime_loop.simps
  least_prime_larger_than.simps

section \<open>The probe sequence is a permutation\<close>

lemma affine_inj:
  fixes a s n :: nat
  assumes cop: "coprime s n" and le: "t \<le> t'" and t': "t' < n"
    and eq: "(a + t * s) mod n = (a + t' * s) mod n"
  shows "t = t'"
proof -
  have "a + t * s \<le> a + t' * s"
    using le by simp
  then have "n dvd (a + t' * s) - (a + t * s)"
    using eq mod_eq_dvd_iff_nat [of "a + t * s" "a + t' * s" n] by simp
  moreover have "(a + t' * s) - (a + t * s) = (t' - t) * s"
    by (simp add: diff_mult_distrib)
  ultimately have "n dvd (t' - t) * s"
    by simp
  then have "n dvd t' - t"
    using cop by (simp add: coprime_commute coprime_dvd_mult_left_iff)
  moreover have "t' - t < n"
    using t' by simp
  ultimately have "t' - t = 0"
    by (meson dvd_imp_le not_less zero_less_iff_neq_zero)
  with le show ?thesis
    by simp
qed

lemma affine_permutation:
  fixes a s n :: nat
  assumes cop: "coprime s n" and n: "0 < n"
  shows "mset (map (\<lambda>t. (a + t * s) mod n) [0..<n]) = mset [0..<n]"
proof -
  let ?g = "\<lambda>t. (a + t * s) mod n"
  have inj: "inj_on ?g {0..<n}"
  proof (rule inj_onI)
    fix x y
    assume xy: "x \<in> {0..<n}" "y \<in> {0..<n}" "?g x = ?g y"
    show "x = y"
    proof (cases "x \<le> y")
      case True
      then show ?thesis
        using affine_inj [OF cop True _ xy(3)] xy(2) by simp
    next
      case False
      then have "y \<le> x" by simp
      then show ?thesis
        using affine_inj [OF cop \<open>y \<le> x\<close> _ xy(3) [symmetric]] xy(1) by simp
    qed
  qed
  have sub: "?g ` {0..<n} \<subseteq> {0..<n}"
    using n by auto
  have "card (?g ` {0..<n}) = card {0..<n}"
    using inj by (rule card_image)
  with sub have img: "?g ` {0..<n} = {0..<n}"
    by (simp add: card_subset_eq)
  have "distinct (map ?g [0..<n])"
    using inj by (simp add: distinct_map)
  moreover have "set (map ?g [0..<n]) = set [0..<n]"
    using img by simp
  ultimately show ?thesis
    using set_eq_iff_mset_eq_distinct [of "map ?g [0..<n]" "[0..<n]"] by simp
qed

lemma unat_2p_u32:
  assumes "r < 32"
  shows "unat ((2::u32) ^ r) = 2 ^ r"
proof -
  have "(2::nat) ^ r < 2 ^ 32"
    using assms by (rule power_strict_increasing) simp
  moreover have "(2::u32) ^ r = of_nat (2 ^ r)"
    by simp
  ultimately show ?thesis
    by (simp add: unat_of_nat del: of_nat_power)
qed

lemma p2_u32_nonzero:
  assumes "r < 32"
  shows "(2::u32) ^ r \<noteq> 0"
proof -
  have "0 < unat ((2::u32) ^ r)"
    using unat_2p_u32 [OF assms] by simp
  then show ?thesis
    by (rule unat_gt_0 [THEN iffD1])
qed

lemma mod_mod_pow2:
  fixes a :: nat
  assumes "r \<le> 32"
  shows "a mod 4294967296 mod 2 ^ r = a mod 2 ^ r"
proof -
  have "(2::nat) ^ r dvd 2 ^ 32"
    using assms by (rule le_imp_power_dvd)
  then have "(2::nat) ^ r dvd 4294967296"
    by simp
  then show ?thesis
    by (rule mod_mod_cancel)
qed

lemma probe_word_nat:
  fixes h s :: u32
  assumes "r < 32"
  shows "(h + of_nat t * s) mod 2 ^ r = of_nat ((unat h + t * unat s) mod 2 ^ r)"
proof -
  have "unat ((h + of_nat t * s) mod 2 ^ r) = unat (h + of_nat t * s) mod 2 ^ r"
    using assms by (simp add: unat_mod unat_2p_u32)
  also have "unat (h + of_nat t * s) = (unat h + unat (of_nat t * s :: u32)) mod 4294967296"
    by (simp add: unat_word_ariths)
  also have "unat (of_nat t * s :: u32) = (t * unat s) mod 4294967296"
    by (simp add: unat_word_ariths unat_of_nat mod_mult_left_eq)
  also have "(unat h + (t * unat s) mod 4294967296) mod 4294967296 mod 2 ^ r
      = (unat h + t * unat s) mod 2 ^ r"
    using assms by (simp add: mod_mod_pow2 mod_add_right_eq)
  finally have "unat ((h + of_nat t * s) mod 2 ^ r) = (unat h + t * unat s) mod 2 ^ r" .
  then have "(of_nat (unat ((h + of_nat t * s) mod 2 ^ r)) :: u32)
      = of_nat ((unat h + t * unat s) mod 2 ^ r)"
    by (rule arg_cong)
  then show ?thesis
    by simp
qed

lemma odd_Oddify: "odd (unat (Oddify h))"
  by (simp add: Oddify_def even_or_iff unsigned_or_eq)

lemma probe_sequence_permutation:
  fixes h s :: u32
  assumes r: "r < 32" and s: "odd (unat s)"
  shows "mset (map (\<lambda>t. (Inr ((h + of_nat t * s) mod 2 ^ r) :: error + u32)) [0..<2 ^ r])
    = mset (map (\<lambda>i. Inr (of_nat i)) [0..<2 ^ r])"
proof -
  let ?g = "\<lambda>t. (unat h + t * unat s) mod 2 ^ r"
  have "coprime (unat s) (2 ^ r)"
    using s by (simp add: coprime_right_2_iff_odd)
  then have perm: "mset (map ?g [0..<2 ^ r]) = mset [0..<2 ^ r]"
    by (rule affine_permutation) simp
  have "map (\<lambda>t. (Inr ((h + of_nat t * s) mod 2 ^ r) :: error + u32)) [0..<2 ^ r]
      = map (\<lambda>i. Inr (of_nat i)) (map ?g [0..<2 ^ r])"
    using r by (simp add: probe_word_nat)
  then have "mset (map (\<lambda>t. (Inr ((h + of_nat t * s) mod 2 ^ r) :: error + u32)) [0..<2 ^ r])
      = image_mset (\<lambda>i. Inr (of_nat i)) (mset (map ?g [0..<2 ^ r]))"
    by (simp only: mset_map)
  also have "\<dots> = image_mset (\<lambda>i. Inr (of_nat i)) (mset [0..<2 ^ r])"
    by (simp only: perm)
  also have "\<dots> = mset (map (\<lambda>i. Inr (of_nat i)) [0..<2 ^ r])"
    by (simp only: mset_map)
  finally show ?thesis .
qed

text \<open>
  C4. For every table size \<open>M = 2 ^ r\<close> that a \<^verbatim>\<open>uint32_t\<close> holds and every key, the
  indices that each probing function returns for the trial numbers \<open>0, \<dots>, M - 1\<close> are
  the indices \<open>0, \<dots>, M - 1\<close>, each exactly once: for linear probing over any hash
  function, and for double hashing over any two hash functions.
\<close>

theorem probe_permutation:
  assumes "r < 32"
    and "hash_apply hFunc1 key = Inr h1"
    and "hash_apply hFunc2 key = Inr h2"
  shows "mset (map (\<lambda>t. probe_apply (LinearProbingHashFunction (2 ^ r) hFunc1) key (of_nat t))
             [0..<2 ^ r])
      = mset (map (\<lambda>i. Inr (of_nat i)) [0..<2 ^ r])
    \<and> mset (map (\<lambda>t. probe_apply (DoubleHashFunction (2 ^ r) hFunc1 hFunc2) key (of_nat t))
             [0..<2 ^ r])
      = mset (map (\<lambda>i. Inr (of_nat i)) [0..<2 ^ r])"
proof
  have "odd (unat (1 :: u32))"
    by simp
  then have "mset (map (\<lambda>t. (Inr ((h1 + of_nat t * 1) mod 2 ^ r) :: error + u32)) [0..<2 ^ r])
      = mset (map (\<lambda>i. Inr (of_nat i)) [0..<2 ^ r])"
    by (rule probe_sequence_permutation [OF assms(1)])
  then show "mset (map (\<lambda>t. probe_apply (LinearProbingHashFunction (2 ^ r) hFunc1) key (of_nat t))
             [0..<2 ^ r])
      = mset (map (\<lambda>i. Inr (of_nat i)) [0..<2 ^ r])"
    using assms(2) p2_u32_nonzero [OF assms(1)] by simp
next
  have "mset (map (\<lambda>t. (Inr ((h1 + of_nat t * Oddify h2) mod 2 ^ r) :: error + u32)) [0..<2 ^ r])
      = mset (map (\<lambda>i. Inr (of_nat i)) [0..<2 ^ r])"
    using assms(1) odd_Oddify by (rule probe_sequence_permutation)
  then show "mset (map (\<lambda>t. probe_apply (DoubleHashFunction (2 ^ r) hFunc1 hFunc2) key (of_nat t))
             [0..<2 ^ r])
      = mset (map (\<lambda>i. Inr (of_nat i)) [0..<2 ^ r])"
    using assms(2,3) p2_u32_nonzero [OF assms(1)] by simp
qed

theorem probe_permutation_witness:
  "(3::nat) < 32
   \<and> hash_apply (DivisionHashFunction 8) 13 = Inr 5
   \<and> hash_apply (MultiplicationHashFunction 8 3) 13 = Inr 0
   \<and> mset (map (\<lambda>t. probe_apply (LinearProbingHashFunction (2 ^ 3) (DivisionHashFunction 8)) 13
                 (of_nat t)) [0..<2 ^ 3])
      = mset (map (\<lambda>i. Inr (of_nat i)) [0..<2 ^ 3])
   \<and> mset (map (\<lambda>t. probe_apply (DoubleHashFunction (2 ^ 3) (DivisionHashFunction 8)
                 (MultiplicationHashFunction 8 3)) 13 (of_nat t)) [0..<2 ^ 3])
      = mset (map (\<lambda>i. Inr (of_nat i)) [0..<2 ^ 3])"
proof -
  have a: "(3::nat) < 32"
    by simp
  have b: "hash_apply (DivisionHashFunction 8) 13 = Inr 5"
    by simp
  have c: "hash_apply (MultiplicationHashFunction 8 3) 13 = Inr 0"
    by (simp add: W_def A_fib_def drop_bit_eq_div)
  show ?thesis
    using a b c probe_permutation [OF a b c] by blast
qed

section \<open>The hash functions stay below the table size\<close>

lemma is_prime_loop_returns:
  "odd i \<Longrightarrow> \<exists>b. is_prime_loop n i i_sq i_sq_step = Inr b"
proof (induction n i i_sq i_sq_step rule: is_prime_loop.induct)
  case (1 n i i_sq i_sq_step)
  have "i + 2 \<noteq> 0"
  proof
    assume "i + 2 = 0"
    then have "even (i + 2)"
      by (simp only: even_zero)
    with \<open>odd i\<close> show False
      by simp
  qed
  with \<open>odd i\<close> have nz: "i \<noteq> 0" "i + 2 \<noteq> 0"
    by auto
  from \<open>odd i\<close> have "odd (i + 6)"
    by simp
  show ?case
  proof (cases "i_sq \<le> n")
    case False
    then show ?thesis
      by (subst is_prime_loop.simps) auto
  next
    case le: True
    show ?thesis
    proof (cases "n mod i = 0")
      case True
      then show ?thesis
        using le nz by (subst is_prime_loop.simps) auto
    next
      case ni: False
      show ?thesis
      proof (cases "n mod (i + 2) = 0")
        case True
        then show ?thesis
          using le ni nz by (subst is_prime_loop.simps) auto
      next
        case False
        then have "\<exists>b. is_prime_loop n (i + 6) (i_sq + i_sq_step) (i_sq_step + 72) = Inr b"
          using "1.IH" le ni nz \<open>odd (i + 6)\<close> by simp
        then show ?thesis
          using le ni False nz by (subst is_prime_loop.simps) auto
      qed
    qed
  qed
qed

lemma is_prime_returns: "\<exists>b. is_prime n = Inr b"
proof -
  have "odd (5 :: u32)"
    by simp
  then have "\<exists>b. is_prime_loop n 5 25 96 = Inr b"
    by (rule is_prime_loop_returns)
  then show ?thesis
    by (auto simp add: is_prime_def)
qed

lemma is_prime_0: "is_prime 0 = Inr False"
  by (simp add: is_prime_def)

lemma least_prime_larger_than_returns:
  "\<exists>P. least_prime_larger_than n = Inr P \<and> P \<noteq> 0"
proof (induction n rule: least_prime_larger_than.induct)
  case (1 n)
  obtain b where b: "is_prime (n + 1) = Inr b"
    using is_prime_returns by blast
  show ?case
  proof (cases b)
    case True
    with b have "n + 1 \<noteq> 0"
      using is_prime_0 by auto
    then show ?thesis
      using b True by (subst least_prime_larger_than.simps) simp
  next
    case False
    then have "\<exists>P. least_prime_larger_than (n + 1) = Inr P \<and> P \<noteq> 0"
      using "1.IH" b by simp
    then show ?thesis
      using b False by (subst least_prime_larger_than.simps) simp
  qed
qed

lemma drop_bit_1_p2:
  assumes "Suc k < 32"
  shows "drop_bit 1 ((2::u32) ^ Suc k) = 2 ^ k"
proof -
  have "k < 32"
    using assms by simp
  then have "unat ((2::u32) ^ Suc k div 2) = unat ((2::u32) ^ k)"
    using assms by (simp only: unat_div unat_2p_u32) simp
  then have "(2::u32) ^ Suc k div 2 = 2 ^ k"
    by (simp only: word_unat_eq_iff)
  then show ?thesis
    by (simp add: drop_bit_eq_div del: power_Suc)
qed

lemma OnHashSizeChange_loop_p2:
  "r < 32 \<Longrightarrow> OnHashSizeChange_loop (2 ^ r) R = R + of_nat r"
proof (induction r arbitrary: R)
  case 0
  show ?case
    by (subst OnHashSizeChange_loop.simps) (simp add: drop_bit_eq_div)
next
  case (Suc k)
  then have k: "k < 32"
    by simp
  have "drop_bit 1 ((2::u32) ^ Suc k) = 2 ^ k"
    using Suc.prems by (rule drop_bit_1_p2)
  moreover have "(2::u32) ^ k \<noteq> 0"
    using k by (rule p2_u32_nonzero)
  ultimately have "OnHashSizeChange_loop (2 ^ Suc k) R = OnHashSizeChange_loop (2 ^ k) (R + 1)"
    by (subst OnHashSizeChange_loop.simps) (simp del: power_Suc)
  then show ?case
    using Suc.IH [OF k, of "R + 1"] by simp
qed

lemma unat_W_minus:
  assumes "r \<le> 32"
  shows "unat (W - of_nat r) = 32 - r"
proof -
  have "unat (of_nat r :: u32) = r"
    using assms by (simp add: unat_of_nat)
  moreover have "(of_nat r :: u32) \<le> 32"
    using assms by (simp add: word_le_nat_alt unat_of_nat)
  ultimately show ?thesis
    by (simp add: W_def unat_sub)
qed

lemma drop_bit_less_p2:
  fixes x :: u32
  assumes "0 < r" "r < 32"
  shows "drop_bit (32 - r) x < 2 ^ r"
proof -
  have "unat x < 2 ^ 32"
    using unat_u32_less [of x] by simp
  also have "(2::nat) ^ 32 = 2 ^ (32 - r) * 2 ^ r"
    using assms by (simp flip: power_add)
  finally have "unat x div 2 ^ (32 - r) < 2 ^ r"
    by (simp add: less_mult_imp_div_less mult.commute)
  moreover have "unat ((2::u32) ^ (32 - r)) = 2 ^ (32 - r)"
    using assms by (simp add: unat_2p_u32)
  ultimately have "unat (x div 2 ^ (32 - r)) < unat ((2::u32) ^ r)"
    using assms by (simp add: unat_div unat_2p_u32)
  then show ?thesis
    by (simp add: word_less_nat_alt drop_bit_eq_div)
qed

lemma mod_p2_less:
  fixes x :: u32
  assumes "r < 32"
  shows "x mod 2 ^ r < 2 ^ r"
proof -
  have "0 < (2::u32) ^ r"
    using p2_u32_nonzero [OF assms] by (simp add: word_greater_zero_iff)
  then show ?thesis
    by (rule word_mod_less_divisor)
qed

lemma OnHashSizeChange_in_range:
  assumes r: "0 < r" "r < 32"
    and M: "set_M hf (2 ^ r) = hf"
  shows "\<exists>hf' rs'. OnHashSizeChange hf rs = Inr (hf', rs')
    \<and> set_M hf' (2 ^ r) = hf'
    \<and> (\<forall>key. \<exists>h. hash_apply hf' key = Inr h \<and> h < 2 ^ r)"
proof (cases hf)
  case (DivisionHashFunction M)
  with M have "M = 2 ^ r"
    by simp
  then show ?thesis
    using DivisionHashFunction p2_u32_nonzero [OF r(2)] mod_p2_less [OF r(2)] by simp
next
  case (MultiplicationHashFunction M R)
  with M have "M = 2 ^ r"
    by simp
  moreover have "OnHashSizeChange_loop (2 ^ r) 0 = of_nat r"
    using OnHashSizeChange_loop_p2 [OF r(2), of 0] by simp
  moreover have "unat (W - of_nat r) = 32 - r"
    using r by (simp add: unat_W_minus)
  ultimately show ?thesis
    using MultiplicationHashFunction r drop_bit_less_p2 [OF r] by simp
next
  case (UniversalHashFunction M P A B)
  with M have "M = 2 ^ r"
    by simp
  moreover obtain P' where "least_prime_larger_than (2 ^ r) = Inr P'" "P' \<noteq> 0"
    using least_prime_larger_than_returns by blast
  ultimately show ?thesis
    using UniversalHashFunction p2_u32_nonzero [OF r(2)] mod_p2_less [OF r(2)] by simp
qed

lemma set_M_idem: "set_M (set_M hf m) m = set_M hf m"
  by (cases hf) simp_all

lemma UpdateHashSize_in_range:
  assumes "0 < r" "r < 32"
  shows "\<exists>hf' rs'. UpdateHashSize hf (2 ^ r) rs = Inr (hf', rs')
    \<and> set_M hf' (2 ^ r) = hf'
    \<and> (\<forall>key. \<exists>h. hash_apply hf' key = Inr h \<and> h < 2 ^ r)"
  unfolding UpdateHashSize_def using assms set_M_idem by (rule OnHashSizeChange_in_range)

lemma new_HashFunction_in_range:
  assumes "0 < r" "r < 32"
  shows "\<exists>hf' rs'. new_HashFunction H (2 ^ r) seeded rs = Inr (hf', rs')
    \<and> set_M hf' (2 ^ r) = hf'
    \<and> (\<forall>key. \<exists>h. hash_apply hf' key = Inr h \<and> h < 2 ^ r)"
proof (cases H)
  case Division
  then show ?thesis
    using p2_u32_nonzero [OF assms(2)] mod_p2_less [OF assms(2)] by simp
next
  case Multiplication
  then show ?thesis
    using OnHashSizeChange_in_range [OF assms, of "MultiplicationHashFunction (2 ^ r) 0" rs]
    by simp
next
  case Universal
  then show ?thesis
    using OnHashSizeChange_in_range [OF assms, of "UniversalHashFunction (2 ^ r) 0 0 0" seeded]
    by simp
qed

text \<open>
  C9. For every table size \<open>M = 2 ^ r\<close> with \<open>1 \<le> r \<le> 31\<close>, so for every size from 8 on
  that the tables use: a hash function of any of the three classes accepts the size
  (\<^verbatim>\<open>UpdateHashSize\<close> returns, and so does the constructor), and from then on it maps every
  key to an index below \<open>M\<close>.
\<close>

theorem hash_index_in_range:
  assumes "0 < r" "r < 32"
  shows "(\<exists>hf' rs'. UpdateHashSize hf (2 ^ r) rs = Inr (hf', rs')
          \<and> (\<exists>h. hash_apply hf' key = Inr h \<and> h < 2 ^ r))
    \<and> (\<exists>hf' rs'. new_HashFunction H (2 ^ r) seeded rs = Inr (hf', rs')
          \<and> (\<exists>h. hash_apply hf' key = Inr h \<and> h < 2 ^ r))"
  using UpdateHashSize_in_range [OF assms, of hf rs]
    new_HashFunction_in_range [OF assms, of H seeded rs] by blast


theorem hash_index_in_range_witness:
  "(0::nat) < 3 \<and> (3::nat) < 32
   \<and> (\<exists>hf' rs'. UpdateHashSize (UniversalHashFunction 0 0 0 0) (2 ^ 3) (sconst 7) = Inr (hf', rs')
          \<and> (\<exists>h. hash_apply hf' 13 = Inr h \<and> h < 2 ^ 3))
   \<and> (\<exists>hf' rs'. new_HashFunction Multiplication (2 ^ 3) (sconst 7) (sconst 7) = Inr (hf', rs')
          \<and> (\<exists>h. hash_apply hf' 13 = Inr h \<and> h < 2 ^ 3))"
proof -
  have a: "(0::nat) < 3" and b: "(3::nat) < 32"
    by simp_all
  show ?thesis
    using a b hash_index_in_range [OF a b, of "UniversalHashFunction 0 0 0 0" "sconst 7" 13
        Multiplication "sconst 7"]
    by blast
qed

section \<open>Removal in the chaining table\<close>

text \<open>
  C1. \<^verbatim>\<open>remove\<close> of the chaining table decrements \<open>num_entries\<close> whether or not the chain
  held the key. On the table that the constructor returns, \<^verbatim>\<open>remove(5)\<close> finds nothing
  in chain 5, and \<open>num_entries\<close> goes from 0 to \<open>2 ^ 32 - 1\<close>.
\<close>

theorem remove_chain_absent_key_decrements:
  "and_then (new_ChainTable Division (sconst 0) (sconst 0)) (\<lambda>t. remove_chain 3 t 5)
   = Inr \<lparr>ct_length = 8, ct_num_entries = 0xFFFFFFFF, ct_hashFunc = DivisionHashFunction 8,
          ct_hashTable = [[], [], [], [], [], [], [], []], ct_rand = sconst 0\<rparr>"
  by (simp add: and_then_def table_defs fuel_numeral)

section \<open>The scenario of the open-addressing table\<close>

text \<open>
  C5, as the claim states it, fails: after the four insertions and the four removals the
  length of the table is 8, not 4.
\<close>

theorem open_scenario_length_counterexample:
  "and_then (new_OpenTable (LinearProbingHashFunction 8 (DivisionHashFunction 8)) (sconst 0))
     (\<lambda>t. and_then (insert_all_open 9 [5, 13, 21, 29] t)
       (\<lambda>t. and_then (remove_all_open 9 [5, 13, 21, 29] t)
         (\<lambda>t. Inr (ot_length t))))
   \<noteq> Inr 4"
  by (simp add: and_then_def table_defs fuel_numeral)

text \<open>
  C5, amended. With linear probing over division hashing, the keys 5, 13, 21 and 29 go
  to the slots 5, 6, 7 and 0 of the table of length 8; removing the four keys leaves a
  tombstone in each of these slots and \<open>num_entries = 0\<close>, and the table keeps its length
  8: it is not rebuilt.
\<close>

theorem open_scenario_keeps_length:
  "and_then (new_OpenTable (LinearProbingHashFunction 8 (DivisionHashFunction 8)) (sconst 0))
     (\<lambda>t. insert_all_open 9 [5, 13, 21, 29] t)
   = Inr \<lparr>ot_length = 8, ot_num_entries = 4,
          ot_prHashFunc = LinearProbingHashFunction 8 (DivisionHashFunction 8),
          ot_hashTable = [29, 0xFFFFFFFF, 0xFFFFFFFF, 0xFFFFFFFF, 0xFFFFFFFF, 5, 13, 21],
          ot_rand = sconst 0\<rparr>
   \<and> and_then (new_OpenTable (LinearProbingHashFunction 8 (DivisionHashFunction 8)) (sconst 0))
     (\<lambda>t. and_then (insert_all_open 9 [5, 13, 21, 29] t)
       (\<lambda>t. remove_all_open 9 [5, 13, 21, 29] t))
   = Inr \<lparr>ot_length = 8, ot_num_entries = 0,
          ot_prHashFunc = LinearProbingHashFunction 8 (DivisionHashFunction 8),
          ot_hashTable = [0xFFFFFFFE, 0xFFFFFFFF, 0xFFFFFFFF, 0xFFFFFFFF, 0xFFFFFFFF,
                          0xFFFFFFFE, 0xFFFFFFFE, 0xFFFFFFFE],
          ot_rand = sconst 0\<rparr>"
  by (simp add: and_then_def table_defs fuel_numeral)

section \<open>Growth of the chaining table\<close>

lemma find_iter_member:
  "k \<in> set chain \<Longrightarrow> \<exists>itr. find_iter chain k = Some itr \<and> chain ! itr = k"
  by (induction chain) auto

lemma set_concat_push:
  assumes "i < length xs"
  shows "set (concat (xs[i := xs ! i @ [k]])) = insert k (set (concat xs))"
    and "length (concat (xs[i := xs ! i @ [k]])) = Suc (length (concat xs))"
proof -
  have upd: "xs[i := xs ! i @ [k]] = take i xs @ (xs ! i @ [k]) # drop (Suc i) xs"
    using assms by (rule upd_conv_take_nth_drop)
  have "concat xs = concat (take i xs @ xs ! i # drop (Suc i) xs)"
    using assms by (simp add: id_take_nth_drop [symmetric])
  then have old: "concat xs = concat (take i xs) @ xs ! i @ concat (drop (Suc i) xs)"
    by simp
  have new: "concat (xs[i := xs ! i @ [k]])
      = concat (take i xs) @ xs ! i @ [k] @ concat (drop (Suc i) xs)"
    by (simp add: upd)
  show "set (concat (xs[i := xs ! i @ [k]])) = insert k (set (concat xs))"
    by (simp only: new) (subst old, auto)
  show "length (concat (xs[i := xs ! i @ [k]])) = Suc (length (concat xs))"
    by (simp only: new) (subst old, simp)
qed

lemma insert_chain_no_rehash:
  assumes inv: "chain_inv t"
    and room: "unat (ct_num_entries t) < unat (ct_length t)"
  shows "\<exists>t'. insert_chain (Suc fuel) t key = Inr t'
    \<and> chain_inv t'
    \<and> ct_length t' = ct_length t \<and> ct_hashFunc t' = ct_hashFunc t
    \<and> ct_rand t' = ct_rand t
    \<and> length (ct_hashTable t') = length (ct_hashTable t)
    \<and> unat (ct_num_entries t') = Suc (unat (ct_num_entries t))
    \<and> set (concat (ct_hashTable t')) = insert key (set (concat (ct_hashTable t)))
    \<and> length (concat (ct_hashTable t')) = Suc (length (concat (ct_hashTable t)))"
proof -
  obtain h where h: "hash_apply (ct_hashFunc t) key = Inr h" "unat h < length (ct_hashTable t)"
    using inv unfolding chain_inv_def by blast
  let ?ht = "(ct_hashTable t)[unat h := ct_hashTable t ! unat h @ [key]]"
  let ?t = "t\<lparr>ct_hashTable := ?ht, ct_num_entries := ct_num_entries t + 1\<rparr>"
  have ne: "ct_length t \<noteq> ct_num_entries t"
    using room by auto
  have ins: "insert_chain (Suc fuel) t key = Inr ?t"
    using ne h by simp
  have "ct_num_entries t \<noteq> - 1"
  proof
    assume "ct_num_entries t = - 1"
    then have "ct_length t \<le> ct_num_entries t"
      by simp
    then show False
      using room by (simp add: word_le_nat_alt)
  qed
  then have num: "unat (ct_num_entries t + 1) = Suc (unat (ct_num_entries t))"
    by (rule unat_u32_succ)
  have keys: "set (concat ?ht) = insert key (set (concat (ct_hashTable t)))"
    using h(2) by (rule set_concat_push)
  have len: "length (concat ?ht) = Suc (length (concat (ct_hashTable t)))"
    using h(2) by (rule set_concat_push)
  have "chain_inv ?t"
    unfolding chain_inv_def
  proof (intro conjI allI ballI)
    fix k
    show "\<exists>h. hash_apply (ct_hashFunc ?t) k = Inr h \<and> unat h < length (ct_hashTable ?t)"
      using inv unfolding chain_inv_def by simp
  next
    fix k
    have sel: "ct_hashTable ?t = ?ht"
      by simp
    assume "k \<in> set (concat (ct_hashTable ?t))"
    then have "k \<in> set (concat ?ht)"
      by (simp only: sel)
    then have "k \<in> insert key (set (concat (ct_hashTable t)))"
      by (simp only: keys)
    then have "k = key \<or> k \<in> set (concat (ct_hashTable t))"
      by blast
    then show "\<exists>h. hash_apply (ct_hashFunc ?t) k = Inr h \<and> k \<in> set (ct_hashTable ?t ! unat h)"
    proof
      assume "k = key"
      then show ?thesis
        using h by simp
    next
      assume "k \<in> set (concat (ct_hashTable t))"
      then obtain h' where h': "hash_apply (ct_hashFunc t) k = Inr h'"
          "k \<in> set (ct_hashTable t ! unat h')"
        using inv unfolding chain_inv_def by blast
      then have "k \<in> set (?ht ! unat h')"
        using h(2) by (cases "unat h' = unat h") simp_all
      then show ?thesis
        using h'(1) by simp
    qed
  qed
  moreover have "ct_hashTable ?t = ?ht" "ct_length ?t = ct_length t"
      "ct_hashFunc ?t = ct_hashFunc t" "ct_rand ?t = ct_rand t"
      "ct_num_entries ?t = ct_num_entries t + 1"
    by simp_all
  ultimately show ?thesis
    using ins num keys len by (intro exI [of _ ?t]) (simp only: length_list_update simp_thms)
qed

lemma insert_all_chain_no_rehash:
  assumes "chain_inv t"
    and "unat (ct_num_entries t) + length keys \<le> unat (ct_length t)"
  shows "\<exists>t'. insert_all_chain (Suc fuel) keys t = Inr t'
    \<and> chain_inv t'
    \<and> ct_length t' = ct_length t \<and> ct_hashFunc t' = ct_hashFunc t
    \<and> ct_rand t' = ct_rand t
    \<and> length (ct_hashTable t') = length (ct_hashTable t)
    \<and> unat (ct_num_entries t') = unat (ct_num_entries t) + length keys
    \<and> set (concat (ct_hashTable t')) = set (concat (ct_hashTable t)) \<union> set keys
    \<and> length (concat (ct_hashTable t')) = length (concat (ct_hashTable t)) + length keys"
  using assms
proof (induction keys arbitrary: t)
  case Nil
  then show ?case
    by simp
next
  case (Cons key keys)
  have "unat (ct_num_entries t) < unat (ct_length t)"
    using Cons.prems(2) by simp
  with Cons.prems(1) obtain t1 where t1: "insert_chain (Suc fuel) t key = Inr t1"
      "chain_inv t1" "ct_length t1 = ct_length t" "ct_hashFunc t1 = ct_hashFunc t"
      "ct_rand t1 = ct_rand t"
      "length (ct_hashTable t1) = length (ct_hashTable t)"
      "unat (ct_num_entries t1) = Suc (unat (ct_num_entries t))"
      "set (concat (ct_hashTable t1)) = insert key (set (concat (ct_hashTable t)))"
      "length (concat (ct_hashTable t1)) = Suc (length (concat (ct_hashTable t)))"
    using insert_chain_no_rehash [of t fuel key] by blast
  have "unat (ct_num_entries t1) + length keys \<le> unat (ct_length t1)"
    using Cons.prems(2) t1(3,7) by simp
  with t1(2) obtain t' where t': "insert_all_chain (Suc fuel) keys t1 = Inr t'"
      "chain_inv t'" "ct_length t' = ct_length t1" "ct_hashFunc t' = ct_hashFunc t1"
      "ct_rand t' = ct_rand t1"
      "length (ct_hashTable t') = length (ct_hashTable t1)"
      "unat (ct_num_entries t') = unat (ct_num_entries t1) + length keys"
      "set (concat (ct_hashTable t')) = set (concat (ct_hashTable t1)) \<union> set keys"
      "length (concat (ct_hashTable t')) = length (concat (ct_hashTable t1)) + length keys"
    using Cons.IH [of t1] by blast
  show ?case
    using t1 t' by simp
qed

lemma rehash_chain_loop_insert_all:
  "rehash_chain_loop fuel keys t = insert_all_chain fuel keys t"
  by (induction keys arbitrary: t) (simp_all split: sum.splits)

lemma find_chain_stored:
  assumes "chain_inv t" and "k \<in> set (concat (ct_hashTable t))"
  shows "find_chain t k = Inr k"
proof -
  obtain h where h: "hash_apply (ct_hashFunc t) k = Inr h" "k \<in> set (ct_hashTable t ! unat h)"
    using assms unfolding chain_inv_def by blast
  moreover have "unat h < length (ct_hashTable t)"
    using assms(1) h(1) unfolding chain_inv_def by (metis sum.inject(2))
  moreover obtain itr where "find_iter (ct_hashTable t ! unat h) k = Some itr"
      "ct_hashTable t ! unat h ! itr = k"
    using find_iter_member [OF h(2)] by blast
  ultimately show ?thesis
    by (simp add: find_chain_def)
qed



text \<open>
  C6, as the claim states it, fails: the eighth insertion finds \<open>num_entries = 7\<close> and
  does not rebuild; after it the table still has length 8.
\<close>

theorem chain_eighth_insert_no_rebuild:
  "and_then (new_ChainTable Division (sconst 0) (sconst 0))
     (insert_all_chain 3 [1, 2, 3, 4, 5, 6, 7, 8])
   = Inr \<lparr>ct_length = 8, ct_num_entries = 8, ct_hashFunc = DivisionHashFunction 8,
          ct_hashTable = [[8], [1], [2], [3], [4], [5], [6], [7]], ct_rand = sconst 0\<rparr>"
  by (simp add: and_then_def table_defs fuel_numeral)

lemma chain_inv_empty:
  assumes "\<forall>key. \<exists>h. hash_apply hf key = Inr h \<and> unat h < n"
  shows "chain_inv \<lparr>ct_length = len, ct_num_entries = 0, ct_hashFunc = hf,
    ct_hashTable = replicate n [], ct_rand = rs\<rparr>"
  using assms by (simp add: chain_inv_def)

text \<open>
  C6, amended. A chaining table rebuilds when an insertion finds it full, \<open>num_entries =
  length\<close>: at length 8 that is the ninth insertion, not the eighth. For each of the three
  hash functions and any nine keys: the first eight insertions leave the table at length
  8 with 8 entries; the ninth rebuilds it at length 16 before it places its key, and then
  \<^verbatim>\<open>find\<close> returns each of the nine keys.
\<close>

theorem chain_table_grows_when_full:
  assumes "length keys = 8" and "3 \<le> fuel"
  shows "\<exists>t8 t9. and_then (new_ChainTable H seeded rs) (insert_all_chain fuel keys) = Inr t8
      \<and> ct_length t8 = 8 \<and> ct_num_entries t8 = 8
      \<and> insert_chain fuel t8 key = Inr t9
      \<and> ct_length t9 = 16 \<and> ct_num_entries t9 = 9
      \<and> (\<forall>k \<in> set keys \<union> {key}. find_chain t9 k = Inr k)"
proof -
  obtain f where "fuel = 3 + f"
    using assms(2) le_Suc_ex by blast
  then have fuel: "fuel = Suc (Suc (Suc f))"
    by simp
  \<comment> \<open>the constructor\<close>
  have p3: "(2::u32) ^ 3 = 8" and p4: "(2::u32) ^ 4 = 16"
    by simp_all
  obtain hf rs1 where hf: "new_HashFunction H 8 seeded rs = Inr (hf, rs1)"
      "\<forall>key. \<exists>h. hash_apply hf key = Inr h \<and> h < 8"
    using new_HashFunction_in_range [of 3 H seeded rs] unfolding p3 by auto
  define t0 where "t0 = \<lparr>ct_length = 8, ct_num_entries = 0, ct_hashFunc = hf,
    ct_hashTable = replicate 8 [], ct_rand = rs1\<rparr>"
  have new: "new_ChainTable H seeded rs = Inr t0"
    using hf(1) by (simp add: new_ChainTable_def MIN_LENGTH_def t0_def)
  have "\<forall>key. \<exists>h. hash_apply hf key = Inr h \<and> unat h < 8"
    using hf(2) by (simp add: word_less_nat_alt)
  then have inv0: "chain_inv t0"
    unfolding t0_def by (rule chain_inv_empty)
  \<comment> \<open>eight insertions\<close>
  have "unat (ct_num_entries t0) + length keys \<le> unat (ct_length t0)"
    using assms(1) by (simp add: t0_def)
  with inv0 obtain t8 where t8: "insert_all_chain (Suc (Suc (Suc f))) keys t0 = Inr t8"
      "chain_inv t8" "ct_length t8 = ct_length t0" "ct_hashFunc t8 = ct_hashFunc t0"
      "ct_rand t8 = ct_rand t0"
      "length (ct_hashTable t8) = length (ct_hashTable t0)"
      "unat (ct_num_entries t8) = unat (ct_num_entries t0) + length keys"
      "set (concat (ct_hashTable t8)) = set (concat (ct_hashTable t0)) \<union> set keys"
      "length (concat (ct_hashTable t8)) = length (concat (ct_hashTable t0)) + length keys"
    using insert_all_chain_no_rehash [of t0 keys "Suc (Suc f)"] by blast
  have len8: "ct_length t8 = 8" "length (ct_hashTable t8) = 8"
    using t8(3,6) by (simp_all add: t0_def)
  have "unat (ct_num_entries t8) = unat (8 :: u32)"
    using t8(7) assms(1) by (simp add: t0_def)
  then have num8: "ct_num_entries t8 = 8"
    by (simp only: word_unat_eq_iff)
  have keys8: "set (concat (ct_hashTable t8)) = set keys" "length (concat (ct_hashTable t8)) = 8"
    using t8(8,9) assms(1) by (simp_all add: t0_def)
  \<comment> \<open>the rebuild of the ninth insertion\<close>
  obtain hf16 rs2 where hf16: "UpdateHashSize hf 16 rs1 = Inr (hf16, rs2)"
      "\<forall>key. \<exists>h. hash_apply hf16 key = Inr h \<and> h < 16"
    using UpdateHashSize_in_range [of 4 hf rs1] unfolding p4 by auto
  define tn where "tn = \<lparr>ct_length = 16, ct_num_entries = 0, ct_hashFunc = hf16,
    ct_hashTable = replicate 16 [], ct_rand = rs2\<rparr>"
  have "\<forall>key. \<exists>h. hash_apply hf16 key = Inr h \<and> unat h < 16"
    using hf16(2) by (simp add: word_less_nat_alt)
  then have invn: "chain_inv tn"
    unfolding tn_def by (rule chain_inv_empty)
  have "unat (ct_num_entries tn) + length (concat (ct_hashTable t8)) \<le> unat (ct_length tn)"
    using keys8(2) by (simp add: tn_def)
  with invn obtain t16 where t16:
      "insert_all_chain (Suc f) (concat (ct_hashTable t8)) tn = Inr t16"
      "chain_inv t16" "ct_length t16 = ct_length tn"
      "length (ct_hashTable t16) = length (ct_hashTable tn)"
      "unat (ct_num_entries t16) = unat (ct_num_entries tn) + length (concat (ct_hashTable t8))"
      "set (concat (ct_hashTable t16))
        = set (concat (ct_hashTable tn)) \<union> set (concat (ct_hashTable t8))"
    using insert_all_chain_no_rehash [of tn "concat (ct_hashTable t8)" f] by blast
  have rehash: "rehash_chain (Suc (Suc f)) t8 (2 * ct_length t8) = Inr t16"
    using len8 hf16(1) t8(4,5) t16(1)
    by (simp add: rehash_chain_loop_insert_all t0_def tn_def)
  have num16: "unat (ct_num_entries t16) = 8" and len16: "ct_length t16 = 16"
    using t16(3,5) keys8(2) by (simp_all add: tn_def)
  have keys16: "set (concat (ct_hashTable t16)) = set keys"
    using t16(6) keys8(1) by (simp add: tn_def)
  \<comment> \<open>the new key goes into the rebuilt table\<close>
  have ne16: "ct_length t16 \<noteq> ct_num_entries t16"
    using num16 len16 by auto
  have same: "insert_chain (Suc (Suc (Suc f))) t8 key = insert_chain (Suc 0) t16 key"
    using rehash ne16 len8(1) num8 by simp
  have "unat (ct_num_entries t16) < unat (ct_length t16)"
    using num16 len16 by simp
  with t16(2) obtain t9 where t9: "insert_chain (Suc 0) t16 key = Inr t9"
      "chain_inv t9" "ct_length t9 = ct_length t16"
      "unat (ct_num_entries t9) = Suc (unat (ct_num_entries t16))"
      "set (concat (ct_hashTable t9)) = insert key (set (concat (ct_hashTable t16)))"
    using insert_chain_no_rehash [of t16 0 key] by blast
  have "unat (ct_num_entries t9) = unat (9 :: u32)"
    using t9(4) num16 by simp
  then have num9: "ct_num_entries t9 = 9"
    by (simp only: word_unat_eq_iff)
  have found: "find_chain t9 k = Inr k" if "k \<in> set keys \<union> {key}" for k
  proof -
    have "k \<in> set (concat (ct_hashTable t9))"
      using that t9(5) keys16 by auto
    with t9(2) show ?thesis
      by (rule find_chain_stored)
  qed
  have first: "and_then (new_ChainTable H seeded rs) (insert_all_chain fuel keys) = Inr t8"
    using new t8(1) fuel by (simp add: and_then_def)
  have ninth: "insert_chain fuel t8 key = Inr t9"
    using same t9(1) fuel by (simp only:)
  have len9: "ct_length t9 = 16"
    using t9(3) len16 by (simp only:)
  show ?thesis
  proof (rule exI [of _ t8], rule exI [of _ t9], intro conjI ballI)
    show "and_then (new_ChainTable H seeded rs) (insert_all_chain fuel keys) = Inr t8"
      by (fact first)
    show "ct_length t8 = 8" "ct_num_entries t8 = 8"
      by (fact len8(1), fact num8)
    show "insert_chain fuel t8 key = Inr t9"
      by (fact ninth)
    show "ct_length t9 = 16" "ct_num_entries t9 = 9"
      by (fact len9, fact num9)
    show "find_chain t9 k = Inr k" if "k \<in> set keys \<union> {key}" for k
      using that by (rule found)
  qed
qed


theorem chain_table_grows_when_full_witness:
  "length [1, 2, 3, 4, 5, 6, 7, 8 :: u32] = 8 \<and> (3::nat) \<le> 3
   \<and> (\<exists>t8 t9. and_then (new_ChainTable Universal (sconst 5) (sconst 0))
                 (insert_all_chain 3 [1, 2, 3, 4, 5, 6, 7, 8]) = Inr t8
      \<and> ct_length t8 = 8 \<and> ct_num_entries t8 = 8
      \<and> insert_chain 3 t8 9 = Inr t9
      \<and> ct_length t9 = 16 \<and> ct_num_entries t9 = 9
      \<and> (\<forall>k \<in> set [1, 2, 3, 4, 5, 6, 7, 8] \<union> {9}. find_chain t9 k = Inr k))"
proof -
  have a: "length [1, 2, 3, 4, 5, 6, 7, 8 :: u32] = 8"
    by simp
  have b: "(3::nat) \<le> 3"
    by simp
  show ?thesis
    using a b chain_table_grows_when_full [OF a b, of Universal "sconst 5" "sconst 0" 9]
    by blast
qed

section \<open>Removal of an absent key in the open-addressing table\<close>

lemma probing_in_range:
  assumes r: "0 < r" "r < 32"
  shows "\<exists>prh' rs'. UpdateHashSize_probing prh (2 ^ r) rs = Inr (prh', rs')
    \<and> (\<forall>key trial. \<exists>index. probe_apply prh' key trial = Inr index \<and> index < 2 ^ r)"
proof (cases prh)
  case (LinearProbingHashFunction M hFunc)
  obtain hf' rs' where hf: "UpdateHashSize hFunc (2 ^ r) rs = Inr (hf', rs')"
      "\<forall>key. \<exists>h. hash_apply hf' key = Inr h \<and> h < 2 ^ r"
    using UpdateHashSize_in_range [OF r, of hFunc rs] by blast
  have "\<exists>index. probe_apply (LinearProbingHashFunction (2 ^ r) hf') key trial = Inr index
      \<and> index < 2 ^ r" for key trial
  proof -
    obtain h where "hash_apply hf' key = Inr h"
      using hf(2) by blast
    then show ?thesis
      using p2_u32_nonzero [OF r(2)] mod_p2_less [OF r(2)] by simp
  qed
  then show ?thesis
    using LinearProbingHashFunction hf(1) by simp
next
  case (DoubleHashFunction M hFunc1 hFunc2)
  obtain hf1 rs1 where hf1: "UpdateHashSize hFunc1 (2 ^ r) rs = Inr (hf1, rs1)"
      "\<forall>key. \<exists>h. hash_apply hf1 key = Inr h \<and> h < 2 ^ r"
    using UpdateHashSize_in_range [OF r, of hFunc1 rs] by blast
  obtain hf2 rs2 where hf2: "UpdateHashSize hFunc2 (2 ^ r) rs1 = Inr (hf2, rs2)"
      "\<forall>key. \<exists>h. hash_apply hf2 key = Inr h \<and> h < 2 ^ r"
    using UpdateHashSize_in_range [OF r, of hFunc2 rs1] by blast
  have "\<exists>index. probe_apply (DoubleHashFunction (2 ^ r) hf1 hf2) key trial = Inr index
      \<and> index < 2 ^ r" for key trial
  proof -
    obtain h1 where "hash_apply hf1 key = Inr h1"
      using hf1(2) by blast
    moreover obtain h2 where "hash_apply hf2 key = Inr h2"
      using hf2(2) by blast
    ultimately show ?thesis
      using p2_u32_nonzero [OF r(2)] mod_p2_less [OF r(2)] by simp
  qed
  then show ?thesis
    using DoubleHashFunction hf1(1) hf2(1) by simp
qed

lemma find_index_loop_absent:
  assumes ok: "\<And>trial. \<exists>index. probe_apply (ot_prHashFunc t) key trial = Inr index
      \<and> unat index < length (ot_hashTable t)"
    and absent: "key \<notin> set (ot_hashTable t)"
  shows "find_index_loop t key probe = Inr (ot_length t)"
  using assms
proof (induction t key probe rule: find_index_loop.induct)
  case (1 t key probe)
  obtain index where index: "probe_apply (ot_prHashFunc t) key probe = Inr index"
      "unat index < length (ot_hashTable t)"
    using "1.prems"(1) by blast
  then have ne: "ot_hashTable t ! unat index \<noteq> key"
    using "1.prems"(2) nth_mem by metis
  show ?case
  proof (cases "ot_hashTable t ! unat index \<noteq> FREE_MARKER \<and> probe + 1 < ot_length t")
    case True
    then have "find_index_loop t key (probe + 1) = Inr (ot_length t)"
      using "1.IH" [OF index(1)] index(2) ne "1.prems" by simp
    then show ?thesis
      using index ne True by (subst find_index_loop.simps) simp
  next
    case False
    then show ?thesis
      using index ne by (subst find_index_loop.simps) auto
  qed
qed

lemma remove_open_absent:
  assumes "\<And>trial. \<exists>index. probe_apply (ot_prHashFunc t) key trial = Inr index
      \<and> unat index < length (ot_hashTable t)"
    and "key \<notin> set (ot_hashTable t)"
  shows "remove_open fuel t key = Inr t"
  using find_index_loop_absent [OF assms, of 0]
  by (simp add: remove_open_def find_index_def)

text \<open>
  C10, as the claim states it, fails for the two values that mark slots without a key.
  No slot of a new table holds a key, so 0xFFFFFFFF is not present; \<^verbatim>\<open>find_index\<close> takes
  the free slot 7 for an occurrence of it, and \<^verbatim>\<open>remove(0xFFFFFFFF)\<close> turns the slot into a
  tombstone and takes \<open>num_entries\<close> from 0 to \<open>2 ^ 32 - 1\<close>.
\<close>

theorem remove_open_marker_changes_table:
  "new_OpenTable (LinearProbingHashFunction 8 (DivisionHashFunction 8)) (sconst 0)
   = Inr \<lparr>ot_length = 8, ot_num_entries = 0,
          ot_prHashFunc = LinearProbingHashFunction 8 (DivisionHashFunction 8),
          ot_hashTable = [0xFFFFFFFF, 0xFFFFFFFF, 0xFFFFFFFF, 0xFFFFFFFF, 0xFFFFFFFF,
                          0xFFFFFFFF, 0xFFFFFFFF, 0xFFFFFFFF],
          ot_rand = sconst 0\<rparr>
   \<and> and_then (new_OpenTable (LinearProbingHashFunction 8 (DivisionHashFunction 8)) (sconst 0))
       (\<lambda>t. remove_open 9 t 0xFFFFFFFF)
   = Inr \<lparr>ot_length = 8, ot_num_entries = 0xFFFFFFFF,
          ot_prHashFunc = LinearProbingHashFunction 8 (DivisionHashFunction 8),
          ot_hashTable = [0xFFFFFFFF, 0xFFFFFFFF, 0xFFFFFFFF, 0xFFFFFFFF, 0xFFFFFFFF,
                          0xFFFFFFFF, 0xFFFFFFFF, 0xFFFFFFFE],
          ot_rand = sconst 0\<rparr>"
  by (simp add: and_then_def table_defs fuel_numeral)

text \<open>
  C10, amended. Take a table of length \<open>M = 2 ^ r\<close>, \<open>1 \<le> r \<le> 31\<close>, with an array of \<open>M\<close>
  slots and a probing function that has been set to \<open>M\<close>, as the constructor and every
  rebuild leave it. For every key whose value no slot of the array holds (for a key
  other than the two markers 0xFFFFFFFF and 0xFFFFFFFE: a key that is not present),
  \<^verbatim>\<open>remove\<close> returns and leaves the table as it is: length, \<open>num_entries\<close>, every
  slot, and no rebuild.
\<close>

theorem remove_open_absent_unchanged:
  assumes "0 < r" "r < 32"
    and "UpdateHashSize_probing prh (2 ^ r) rs = Inr (ot_prHashFunc t, rs')"
    and "ot_length t = 2 ^ r"
    and "length (ot_hashTable t) = 2 ^ r"
    and "key \<notin> set (ot_hashTable t)"
  shows "remove_open fuel t key = Inr t"
proof -
  have "\<exists>index. probe_apply (ot_prHashFunc t) key trial = Inr index
      \<and> unat index < length (ot_hashTable t)" for trial
  proof -
    obtain index where "probe_apply (ot_prHashFunc t) key trial = Inr index" "index < 2 ^ r"
      using probing_in_range [OF assms(1,2), of prh rs] assms(3) by fastforce
    then show ?thesis
      using assms(2,5) by (auto simp add: word_less_nat_alt unat_2p_u32)
  qed
  then show ?thesis
    using assms(6) by (rule remove_open_absent)
qed


theorem remove_open_absent_unchanged_witness:
  "(0::nat) < 3 \<and> (3::nat) < 32
   \<and> UpdateHashSize_probing (LinearProbingHashFunction 5 (DivisionHashFunction 5)) (2 ^ 3)
        (sconst 0)
      = Inr (LinearProbingHashFunction 8 (DivisionHashFunction 8), sconst 0)
   \<and> 37 \<notin> set [29, 0xFFFFFFFE, 0xFFFFFFFF, 0xFFFFFFFF, 0xFFFFFFFF, 5, 13, 21 :: u32]
   \<and> remove_open 0 \<lparr>ot_length = 8, ot_num_entries = 4,
          ot_prHashFunc = LinearProbingHashFunction 8 (DivisionHashFunction 8),
          ot_hashTable = [29, 0xFFFFFFFE, 0xFFFFFFFF, 0xFFFFFFFF, 0xFFFFFFFF, 5, 13, 21],
          ot_rand = sconst 0\<rparr> 37
      = Inr \<lparr>ot_length = 8, ot_num_entries = 4,
          ot_prHashFunc = LinearProbingHashFunction 8 (DivisionHashFunction 8),
          ot_hashTable = [29, 0xFFFFFFFE, 0xFFFFFFFF, 0xFFFFFFFF, 0xFFFFFFFF, 5, 13, 21],
          ot_rand = sconst 0\<rparr>"
proof -
  let ?t = "\<lparr>ot_length = 8, ot_num_entries = 4,
          ot_prHashFunc = LinearProbingHashFunction 8 (DivisionHashFunction 8),
          ot_hashTable = [29, 0xFFFFFFFE, 0xFFFFFFFF, 0xFFFFFFFF, 0xFFFFFFFF, 5, 13, 21 :: u32],
          ot_rand = sconst (0 :: u32)\<rparr>"
  have a: "(0::nat) < 3" and b: "(3::nat) < 32"
    by simp_all
  have c: "UpdateHashSize_probing (LinearProbingHashFunction 5 (DivisionHashFunction 5)) (2 ^ 3)
        (sconst 0)
      = Inr (ot_prHashFunc ?t, sconst 0)"
    by (simp add: UpdateHashSize_def)
  have d: "ot_length ?t = 2 ^ 3" and e: "length (ot_hashTable ?t) = 2 ^ 3"
    by simp_all
  have f: "37 \<notin> set (ot_hashTable ?t)"
    by simp
  have "remove_open 0 ?t 37 = Inr ?t"
    using a b c d e f by (rule remove_open_absent_unchanged)
  then show ?thesis
    using a b c f by simp
qed


section \<open>Where the open-addressing table stores a new key\<close>

subsection \<open>The probe loop stops at the first free slot\<close>

lemma permutation_covers:
  fixes f :: "nat \<Rightarrow> error + u32"
  assumes perm: "mset (map f [0..<n]) = mset (map (\<lambda>i. Inr (of_nat i)) [0..<n])"
    and s: "s < n"
  shows "\<exists>t<n. f t = Inr (of_nat s)"
proof -
  have "s \<in> set [0..<n]"
    using s by simp
  then have "Inr (of_nat s) \<in> (\<lambda>i. Inr (of_nat i) :: error + u32) ` set [0..<n]"
    by (rule imageI)
  then have "Inr (of_nat s) \<in> set (map (\<lambda>i. Inr (of_nat i) :: error + u32) [0..<n])"
    by (simp only: set_map)
  then have "Inr (of_nat s) \<in> set (map f [0..<n])"
    using mset_eq_setD [OF perm] by simp
  then show ?thesis
    by auto
qed

lemma probing_ok_UpdateHashSize:
  assumes r: "0 < r" "r < 32"
    and upd: "UpdateHashSize_probing prh (2 ^ r) rs = Inr (prh', rs')"
  shows "probing_ok prh' r"
proof -
  have range: "\<exists>index. probe_apply prh' key trial = Inr index \<and> unat index < 2 ^ r"
    for key trial
  proof -
    obtain index where "probe_apply prh' key trial = Inr index" "index < 2 ^ r"
      using probing_in_range [OF r, of prh rs] upd by fastforce
    then show ?thesis
      using r(2) by (auto simp add: word_less_nat_alt unat_2p_u32)
  qed
  have perm: "mset (map (\<lambda>t. probe_apply prh' key (of_nat t)) [0..<2 ^ r])
      = mset (map (\<lambda>i. Inr (of_nat i)) [0..<2 ^ r])" for key
  proof (cases prh)
    case (LinearProbingHashFunction M hFunc)
    obtain hf' rs1 where hf: "UpdateHashSize hFunc (2 ^ r) rs = Inr (hf', rs1)"
        "\<forall>key. \<exists>h. hash_apply hf' key = Inr h \<and> h < 2 ^ r"
      using UpdateHashSize_in_range [OF r, of hFunc rs] by blast
    have prh': "prh' = LinearProbingHashFunction (2 ^ r) hf'"
      using upd LinearProbingHashFunction hf(1) by simp
    obtain h where h: "hash_apply hf' key = Inr h"
      using hf(2) by blast
    have "odd (unat (1 :: u32))"
      by simp
    then have "mset (map (\<lambda>t. (Inr ((h + of_nat t * 1) mod 2 ^ r) :: error + u32)) [0..<2 ^ r])
        = mset (map (\<lambda>i. Inr (of_nat i)) [0..<2 ^ r])"
      by (rule probe_sequence_permutation [OF r(2)])
    then show ?thesis
      using h p2_u32_nonzero [OF r(2)] prh' by simp
  next
    case (DoubleHashFunction M hFunc1 hFunc2)
    obtain hf1 rs1 where hf1: "UpdateHashSize hFunc1 (2 ^ r) rs = Inr (hf1, rs1)"
        "\<forall>key. \<exists>h. hash_apply hf1 key = Inr h \<and> h < 2 ^ r"
      using UpdateHashSize_in_range [OF r, of hFunc1 rs] by blast
    obtain hf2 rs2 where hf2: "UpdateHashSize hFunc2 (2 ^ r) rs1 = Inr (hf2, rs2)"
        "\<forall>key. \<exists>h. hash_apply hf2 key = Inr h \<and> h < 2 ^ r"
      using UpdateHashSize_in_range [OF r, of hFunc2 rs1] by blast
    have prh': "prh' = DoubleHashFunction (2 ^ r) hf1 hf2"
      using upd DoubleHashFunction hf1(1) hf2(1) by simp
    obtain h1 where h1: "hash_apply hf1 key = Inr h1"
      using hf1(2) by blast
    obtain h2 where h2: "hash_apply hf2 key = Inr h2"
      using hf2(2) by blast
    have "mset (map (\<lambda>t. (Inr ((h1 + of_nat t * Oddify h2) mod 2 ^ r) :: error + u32))
          [0..<2 ^ r])
        = mset (map (\<lambda>i. Inr (of_nat i)) [0..<2 ^ r])"
      using r(2) odd_Oddify by (rule probe_sequence_permutation)
    then show ?thesis
      using h1 h2 p2_u32_nonzero [OF r(2)] prh' by simp
  qed
  have covers: "\<exists>t<2 ^ r. \<exists>index. probe_apply prh' key (of_nat t) = Inr index \<and> unat index = s"
    if s: "s < 2 ^ r" for key s
  proof -
    obtain t where t: "t < 2 ^ r" "probe_apply prh' key (of_nat t) = Inr (of_nat s)"
      using permutation_covers [OF perm s] by blast
    have "(2::nat) ^ r < 2 ^ 32"
      using r(2) by (rule power_strict_increasing) simp
    then have "s < 4294967296"
      using s by simp
    then have "unat (of_nat s :: u32) = s"
      by (simp add: unat_of_nat)
    then show ?thesis
      using t by blast
  qed
  show ?thesis
    unfolding probing_ok_def using range covers by blast
qed

lemma insert_loop_stops:
  assumes before: "\<And>i. i < d \<Longrightarrow> \<exists>ix.
        probe_apply (ot_prHashFunc t) key (probe + of_nat i) = Inr ix
        \<and> unat ix < length (ot_hashTable t)
        \<and> ot_hashTable t ! unat ix \<noteq> FREE_MARKER
        \<and> ot_hashTable t ! unat ix \<noteq> key"
    and at: "probe_apply (ot_prHashFunc t) key (probe + of_nat d) = Inr index"
      "unat index < length (ot_hashTable t)"
      "ot_hashTable t ! unat index = FREE_MARKER \<or> ot_hashTable t ! unat index = key"
    and fuel: "d < fuel"
  shows "insert_loop fuel t key probe
    = Inr (if ot_hashTable t ! unat index = key then None else Some index)"
  using assms
proof (induction d arbitrary: fuel probe)
  case 0
  then obtain f where f: "fuel = Suc f"
    by (cases fuel) auto
  show ?case
    using "0.prems"(2,3,4) f by auto
next
  case (Suc d)
  then obtain f where f: "fuel = Suc f" "d < f"
    by (cases fuel) auto
  obtain ix where ix: "probe_apply (ot_prHashFunc t) key probe = Inr ix"
      "unat ix < length (ot_hashTable t)" "ot_hashTable t ! unat ix \<noteq> FREE_MARKER"
      "ot_hashTable t ! unat ix \<noteq> key"
    using Suc.prems(1) [of 0] by auto
  have step: "probe + 1 + of_nat i = probe + of_nat (Suc i)" for i
    by simp
  have "insert_loop f t key (probe + 1)
    = Inr (if ot_hashTable t ! unat index = key then None else Some index)"
  proof (rule Suc.IH)
    fix i
    assume "i < d"
    then have "Suc i < Suc d"
      by simp
    then show "\<exists>ix. probe_apply (ot_prHashFunc t) key (probe + 1 + of_nat i) = Inr ix
        \<and> unat ix < length (ot_hashTable t)
        \<and> ot_hashTable t ! unat ix \<noteq> FREE_MARKER
        \<and> ot_hashTable t ! unat ix \<noteq> key"
      unfolding step by (rule Suc.prems(1))
  next
    show "probe_apply (ot_prHashFunc t) key (probe + 1 + of_nat d) = Inr index"
      unfolding step by (rule Suc.prems(2))
  qed (use Suc.prems f in simp_all)
  then show ?case
    using ix f(1) by simp
qed

lemma first_stop_exists:
  assumes ok: "probing_ok (ot_prHashFunc t) r"
    and len: "length (ot_hashTable t) = 2 ^ r"
    and free: "FREE_MARKER \<in> set (ot_hashTable t)"
  shows "\<exists>j index. j < 2 ^ r
    \<and> (\<forall>i<j. \<exists>ix. probe_apply (ot_prHashFunc t) key (of_nat i) = Inr ix
          \<and> unat ix < length (ot_hashTable t)
          \<and> ot_hashTable t ! unat ix \<noteq> FREE_MARKER
          \<and> ot_hashTable t ! unat ix \<noteq> key)
    \<and> probe_apply (ot_prHashFunc t) key (of_nat j) = Inr index
    \<and> unat index < length (ot_hashTable t)
    \<and> (ot_hashTable t ! unat index = FREE_MARKER \<or> ot_hashTable t ! unat index = key)"
proof -
  define Q where "Q i \<longleftrightarrow> (\<exists>ix. probe_apply (ot_prHashFunc t) key (of_nat i) = Inr ix
      \<and> (ot_hashTable t ! unat ix = FREE_MARKER \<or> ot_hashTable t ! unat ix = key))" for i
  have range: "\<exists>ix. probe_apply (ot_prHashFunc t) key trial = Inr ix \<and> unat ix < 2 ^ r"
    for trial
    using ok unfolding probing_ok_def by blast
  obtain s where s: "s < 2 ^ r" "ot_hashTable t ! s = FREE_MARKER"
    using free len by (auto simp add: in_set_conv_nth)
  obtain t0 ix0 where t0: "t0 < 2 ^ r" "probe_apply (ot_prHashFunc t) key (of_nat t0) = Inr ix0"
      "unat ix0 = s"
    using ok s(1) unfolding probing_ok_def by blast
  have Q0: "Q t0"
    unfolding Q_def using t0(2,3) s(2) by auto
  define j where "j = (LEAST i. Q i)"
  have Qj: "Q j"
    unfolding j_def using Q0 by (rule LeastI)
  have "j \<le> t0"
    unfolding j_def using Q0 by (rule Least_le)
  then have j: "j < 2 ^ r"
    using t0(1) by simp
  have notQ: "\<not> Q i" if "i < j" for i
    using that unfolding j_def by (rule not_less_Least)
  obtain index where index: "probe_apply (ot_prHashFunc t) key (of_nat j) = Inr index"
      "ot_hashTable t ! unat index = FREE_MARKER \<or> ot_hashTable t ! unat index = key"
    using Qj unfolding Q_def by blast
  have in_range: "unat index < length (ot_hashTable t)"
    using range [of "of_nat j"] index(1) len by auto
  have before: "\<exists>ix. probe_apply (ot_prHashFunc t) key (of_nat i) = Inr ix
          \<and> unat ix < length (ot_hashTable t)
          \<and> ot_hashTable t ! unat ix \<noteq> FREE_MARKER
          \<and> ot_hashTable t ! unat ix \<noteq> key" if "i < j" for i
  proof -
    obtain ix where ix: "probe_apply (ot_prHashFunc t) key (of_nat i) = Inr ix"
        "unat ix < 2 ^ r"
      using range [of "of_nat i"] by blast
    have "\<not> (ot_hashTable t ! unat ix = FREE_MARKER \<or> ot_hashTable t ! unat ix = key)"
      using notQ [OF that] ix(1) unfolding Q_def by auto
    then show ?thesis
      using ix len by auto
  qed
  show ?thesis
  proof (rule exI [of _ j], rule exI [of _ index], intro conjI allI impI)
    show "j < 2 ^ r"
      by (rule j)
    show "probe_apply (ot_prHashFunc t) key (of_nat j) = Inr index"
      by (rule index(1))
    show "unat index < length (ot_hashTable t)"
      by (rule in_range)
    show "ot_hashTable t ! unat index = FREE_MARKER \<or> ot_hashTable t ! unat index = key"
      by (rule index(2))
  qed (use before in blast)
qed

lemma insert_open_no_grow:
  assumes ok: "probing_ok (ot_prHashFunc t) r"
    and len: "length (ot_hashTable t) = 2 ^ r"
    and free: "FREE_MARKER \<in> set (ot_hashTable t)"
    and nogrow: "\<not> load_factor_ge_half t"
    and fuel: "2 ^ r \<le> fuel"
  shows "\<exists>t'. insert_open (Suc fuel) t key = Inr t'
    \<and> (t' = t
       \<or> (\<exists>index :: u32. unat index < length (ot_hashTable t)
            \<and> ot_hashTable t ! unat index = FREE_MARKER
            \<and> key \<noteq> FREE_MARKER
            \<and> t' = t\<lparr>ot_hashTable := (ot_hashTable t)[unat index := key],
                      ot_num_entries := ot_num_entries t + 1\<rparr>))"
proof -
  obtain j index where j: "j < 2 ^ r"
      "\<forall>i<j. \<exists>ix. probe_apply (ot_prHashFunc t) key (of_nat i) = Inr ix
          \<and> unat ix < length (ot_hashTable t)
          \<and> ot_hashTable t ! unat ix \<noteq> FREE_MARKER
          \<and> ot_hashTable t ! unat ix \<noteq> key"
      "probe_apply (ot_prHashFunc t) key (of_nat j) = Inr index"
      "unat index < length (ot_hashTable t)"
      "ot_hashTable t ! unat index = FREE_MARKER \<or> ot_hashTable t ! unat index = key"
    using first_stop_exists [OF ok len free, of key] by blast
  have "insert_loop fuel t key 0
    = Inr (if ot_hashTable t ! unat index = key then None else Some index)"
  proof (rule insert_loop_stops [where d = j])
    show "j < fuel"
      using j(1) fuel by simp
  qed (use j in simp_all)
  then have loop: "insert_loop fuel t key 0
    = Inr (if ot_hashTable t ! unat index = key then None else Some index)" .
  show ?thesis
  proof (cases "ot_hashTable t ! unat index = key")
    case True
    then have "insert_open (Suc fuel) t key = Inr t"
      using loop nogrow by simp
    then show ?thesis
      by simp
  next
    case False
    then have stored: "insert_open (Suc fuel) t key
        = Inr (t\<lparr>ot_hashTable := (ot_hashTable t)[unat index := key],
                  ot_num_entries := ot_num_entries t + 1\<rparr>)"
      using loop nogrow by simp
    have slot: "ot_hashTable t ! unat index = FREE_MARKER" "key \<noteq> FREE_MARKER"
      using False j(5) by auto
    have "\<exists>ix :: u32. unat ix < length (ot_hashTable t)
            \<and> ot_hashTable t ! unat ix = FREE_MARKER
            \<and> key \<noteq> FREE_MARKER
            \<and> t\<lparr>ot_hashTable := (ot_hashTable t)[unat index := key],
                  ot_num_entries := ot_num_entries t + 1\<rparr>
              = t\<lparr>ot_hashTable := (ot_hashTable t)[unat ix := key],
                      ot_num_entries := ot_num_entries t + 1\<rparr>"
      by (intro exI [of _ index] conjI slot j(4) refl)
    then show ?thesis
      using stored by simp
  qed
qed

subsection \<open>The rebuild at twice the length returns\<close>

lemma count_list_replicate_same: "count_list (replicate n x) x = n"
  by (induction n) simp_all

lemma count_list_pos_member: "0 < count_list xs x \<Longrightarrow> x \<in> set xs"
  by (induction xs) (auto split: if_splits)

lemma count_list_update_free:
  assumes i: "i < length xs" and x: "xs ! i = x" and k: "k \<noteq> x"
  shows "Suc (count_list (xs[i := k]) x) = count_list xs x"
  using i x
proof (induction xs arbitrary: i)
  case Nil
  then show ?case
    by simp
next
  case (Cons y ys)
  show ?case
  proof (cases i)
    case 0
    then show ?thesis
      using Cons.prems k by simp
  next
    case (Suc n)
    then have "Suc (count_list (ys[n := k]) x) = count_list ys x"
      using Cons.prems by (intro Cons.IH) simp_all
    then show ?thesis
      using Suc by simp
  qed
qed

lemma unat_u32_max: "unat (- 1 :: u32) = 4294967295"
proof -
  have "(- 1 :: u32) = 4294967295"
    by simp
  then show ?thesis
    by (simp only:) simp
qed

lemma p2_le_2p31:
  assumes "r < 32"
  shows "(2::nat) ^ r \<le> 2147483648"
proof -
  have "r \<le> 31"
    using assms by simp
  then have "(2::nat) ^ r \<le> 2 ^ 31"
    by (intro power_increasing) simp_all
  then show ?thesis
    by simp
qed

lemma rehash_open_loop_returns:
  assumes r: "0 < r" "r < 32"
    and ok: "probing_ok (ot_prHashFunc t) r"
    and len: "ot_length t = 2 ^ r" "length (ot_hashTable t) = 2 ^ r"
    and free: "count_list (ot_hashTable t) FREE_MARKER + unat (ot_num_entries t) = 2 ^ r"
    and room: "2 * (unat (ot_num_entries t) + length keys) \<le> 2 ^ r"
    and fuel: "2 ^ r < fuel"
  shows "\<exists>t'. rehash_open_loop fuel keys t = Inr t'
    \<and> ot_prHashFunc t' = ot_prHashFunc t \<and> ot_length t' = ot_length t
    \<and> ot_rand t' = ot_rand t
    \<and> length (ot_hashTable t') = 2 ^ r
    \<and> count_list (ot_hashTable t') FREE_MARKER + unat (ot_num_entries t') = 2 ^ r
    \<and> 2 * unat (ot_num_entries t') \<le> 2 ^ r
    \<and> set (ot_hashTable t') \<subseteq> set (ot_hashTable t) \<union> (set keys - {FREE_MARKER, DEL_MARKER})"
  using ok len free room
proof (induction keys arbitrary: t)
  case Nil
  then show ?case
    by simp
next
  case (Cons key keys)
  have room': "2 * (unat (ot_num_entries t) + length keys) \<le> 2 ^ r"
    using Cons.prems(5) by simp
  show ?case
  proof (cases "key \<noteq> FREE_MARKER \<and> key \<noteq> DEL_MARKER")
    case False
    obtain t' where t': "rehash_open_loop fuel keys t = Inr t'"
        "ot_prHashFunc t' = ot_prHashFunc t" "ot_length t' = ot_length t"
        "ot_rand t' = ot_rand t" "length (ot_hashTable t') = 2 ^ r"
        "count_list (ot_hashTable t') FREE_MARKER + unat (ot_num_entries t') = 2 ^ r"
        "2 * unat (ot_num_entries t') \<le> 2 ^ r"
        "set (ot_hashTable t') \<subseteq> set (ot_hashTable t) \<union> (set keys - {FREE_MARKER, DEL_MARKER})"
      using Cons.IH [OF Cons.prems(1-4) room'] by blast
    have "rehash_open_loop fuel (key # keys) t = Inr t'"
      using False t'(1) by auto
    moreover have "set (ot_hashTable t')
        \<subseteq> set (ot_hashTable t) \<union> (set (key # keys) - {FREE_MARKER, DEL_MARKER})"
      using t'(8) by auto
    ultimately show ?thesis
      using t'(2-7) by (intro exI [of _ t'] conjI)
  next
    case True
    obtain f where f: "fuel = Suc f" "2 ^ r \<le> f"
      using fuel by (cases fuel) auto
    have small: "(2::nat) ^ r \<le> 2147483648"
      using r(2) by (rule p2_le_2p31)
    have num: "2 * unat (ot_num_entries t) + 2 \<le> 2 ^ r"
      using Cons.prems(5) by simp
    have "unat (ot_length t) = 2 ^ r"
      using Cons.prems(2) r(2) by (simp add: unat_2p_u32)
    moreover have "ot_length t \<noteq> 0"
      using Cons.prems(2) p2_u32_nonzero [OF r(2)] by simp
    ultimately have nogrow: "\<not> load_factor_ge_half t"
      using num by (simp add: load_factor_ge_half_def)
    have "0 < count_list (ot_hashTable t) FREE_MARKER"
      using Cons.prems(4) num by linarith
    then have member: "FREE_MARKER \<in> set (ot_hashTable t)"
      by (rule count_list_pos_member)
    obtain t1 where t1: "insert_open (Suc f) t key = Inr t1"
        "t1 = t
         \<or> (\<exists>index :: u32. unat index < length (ot_hashTable t)
            \<and> ot_hashTable t ! unat index = FREE_MARKER
            \<and> key \<noteq> FREE_MARKER
            \<and> t1 = t\<lparr>ot_hashTable := (ot_hashTable t)[unat index := key],
                      ot_num_entries := ot_num_entries t + 1\<rparr>)"
      using insert_open_no_grow [OF Cons.prems(1,3) member nogrow f(2), of key] by blast
    have inv: "probing_ok (ot_prHashFunc t1) r \<and> ot_length t1 = 2 ^ r
        \<and> length (ot_hashTable t1) = 2 ^ r
        \<and> count_list (ot_hashTable t1) FREE_MARKER + unat (ot_num_entries t1) = 2 ^ r
        \<and> 2 * (unat (ot_num_entries t1) + length keys) \<le> 2 ^ r
        \<and> ot_prHashFunc t1 = ot_prHashFunc t \<and> ot_length t1 = ot_length t
        \<and> ot_rand t1 = ot_rand t
        \<and> set (ot_hashTable t1) \<subseteq> insert key (set (ot_hashTable t))"
    proof (cases "t1 = t")
      case True
      then show ?thesis
        using Cons.prems(1-4) room' by auto
    next
      case False
      then obtain index :: u32 where index: "unat index < length (ot_hashTable t)"
          "ot_hashTable t ! unat index = FREE_MARKER" "key \<noteq> FREE_MARKER"
          "t1 = t\<lparr>ot_hashTable := (ot_hashTable t)[unat index := key],
                      ot_num_entries := ot_num_entries t + 1\<rparr>"
        using t1(2) by blast
      have "unat (ot_num_entries t) < 4294967295"
        using num small by linarith
      then have "ot_num_entries t \<noteq> - 1"
        using unat_u32_max by auto
      then have succ: "unat (ot_num_entries t + 1) = Suc (unat (ot_num_entries t))"
        by (rule unat_u32_succ)
      have cnt: "Suc (count_list ((ot_hashTable t)[unat index := key]) FREE_MARKER)
          = count_list (ot_hashTable t) FREE_MARKER"
        using index(1,2,3) by (rule count_list_update_free)
      have "count_list (ot_hashTable t1) FREE_MARKER + unat (ot_num_entries t1) = 2 ^ r"
        using cnt succ Cons.prems(4) index(4) by simp
      moreover have "2 * (unat (ot_num_entries t1) + length keys) \<le> 2 ^ r"
        using succ Cons.prems(5) index(4) by simp
      moreover have "set (ot_hashTable t1) \<subseteq> insert key (set (ot_hashTable t))"
        using index(4) set_update_subset_insert [of "ot_hashTable t" "unat index" key] by simp
      ultimately show ?thesis
        using Cons.prems(1-3) index(4) by simp
    qed
    obtain t' where t': "rehash_open_loop fuel keys t1 = Inr t'"
        "ot_prHashFunc t' = ot_prHashFunc t1" "ot_length t' = ot_length t1"
        "ot_rand t' = ot_rand t1" "length (ot_hashTable t') = 2 ^ r"
        "count_list (ot_hashTable t') FREE_MARKER + unat (ot_num_entries t') = 2 ^ r"
        "2 * unat (ot_num_entries t') \<le> 2 ^ r"
        "set (ot_hashTable t') \<subseteq> set (ot_hashTable t1) \<union> (set keys - {FREE_MARKER, DEL_MARKER})"
      using Cons.IH [of t1] inv by blast
    have "rehash_open_loop fuel (key # keys) t = Inr t'"
      using True t1(1) t'(1) f(1) by simp
    moreover have "set (ot_hashTable t')
        \<subseteq> set (ot_hashTable t) \<union> (set (key # keys) - {FREE_MARKER, DEL_MARKER})"
      using t'(8) inv True by auto
    moreover have "ot_prHashFunc t' = ot_prHashFunc t" "ot_length t' = ot_length t"
        "ot_rand t' = ot_rand t"
      using t'(2-4) inv Cons.prems(2) by simp_all
    ultimately show ?thesis
      using t'(5-7) by (intro exI [of _ t'] conjI)
  qed
qed

lemma rehash_open_grow_returns:
  assumes r: "r < 31"
    and len: "ot_length t = 2 ^ r" "length (ot_hashTable t) = 2 ^ r"
    and fuel: "2 ^ Suc r + 1 < fuel"
  shows "\<exists>t' rs'. rehash_open fuel t (2 * ot_length t) = Inr t'
    \<and> UpdateHashSize_probing (ot_prHashFunc t) (2 ^ Suc r) (ot_rand t)
        = Inr (ot_prHashFunc t', rs')
    \<and> ot_length t' = 2 ^ Suc r \<and> length (ot_hashTable t') = 2 ^ Suc r
    \<and> FREE_MARKER \<in> set (ot_hashTable t')
    \<and> set (ot_hashTable t') \<subseteq> insert FREE_MARKER (set (ot_hashTable t))"
proof -
  have r': "0 < Suc r" "Suc r < 32"
    using r by simp_all
  obtain g where g: "fuel = Suc g" "2 ^ Suc r < g"
    using fuel by (cases fuel) auto
  have double: "2 * ot_length t = 2 ^ Suc r"
    using len(1) by simp
  have "r < 32"
    using r by simp
  then have ulen: "unat (ot_length t) = 2 ^ r"
    using len(1) by (simp add: unat_2p_u32)
  have unew: "unat ((2::u32) ^ Suc r) = 2 ^ Suc r"
    using r'(2) by (rule unat_2p_u32)
  obtain prh' rs' where upd:
      "UpdateHashSize_probing (ot_prHashFunc t) (2 ^ Suc r) (ot_rand t) = Inr (prh', rs')"
    using probing_in_range [OF r', of "ot_prHashFunc t" "ot_rand t"] by blast
  have ok: "probing_ok prh' (Suc r)"
    using r' upd by (rule probing_ok_UpdateHashSize)
  define t0 where "t0 = \<lparr>ot_length = 2 ^ Suc r, ot_num_entries = 0, ot_prHashFunc = prh',
      ot_hashTable = new_hash_table (2 ^ Suc r), ot_rand = rs'\<rparr>"
  have table0: "ot_hashTable t0 = replicate (2 ^ Suc r) FREE_MARKER"
    unfolding t0_def new_hash_table_def by (simp only: unew OpenTable.simps)
  have sel0: "ot_prHashFunc t0 = prh'" "ot_length t0 = 2 ^ Suc r" "ot_num_entries t0 = 0"
    unfolding t0_def by simp_all
  have call: "rehash_open fuel t (2 * ot_length t) = rehash_open_loop g (ot_hashTable t) t0"
    unfolding g(1) double t0_def using upd ulen len(2) by (simp del: power_Suc)
  have ok0: "probing_ok (ot_prHashFunc t0) (Suc r)"
    using ok sel0(1) by simp
  have len0: "length (ot_hashTable t0) = 2 ^ Suc r"
    by (simp only: table0 length_replicate)
  have free0: "count_list (ot_hashTable t0) FREE_MARKER + unat (ot_num_entries t0) = 2 ^ Suc r"
    by (simp only: table0 sel0 count_list_replicate_same) simp
  have room0: "2 * (unat (ot_num_entries t0) + length (ot_hashTable t)) \<le> 2 ^ Suc r"
    by (simp only: sel0 len(2)) simp
  obtain t' where t': "rehash_open_loop g (ot_hashTable t) t0 = Inr t'"
      "ot_prHashFunc t' = ot_prHashFunc t0" "ot_length t' = ot_length t0"
      "length (ot_hashTable t') = 2 ^ Suc r"
      "count_list (ot_hashTable t') FREE_MARKER + unat (ot_num_entries t') = 2 ^ Suc r"
      "2 * unat (ot_num_entries t') \<le> 2 ^ Suc r"
      "set (ot_hashTable t')
        \<subseteq> set (ot_hashTable t0) \<union> (set (ot_hashTable t) - {FREE_MARKER, DEL_MARKER})"
    using rehash_open_loop_returns [OF r' ok0 sel0(2) len0 free0 room0 g(2)] by blast
  have "0 < (2::nat) ^ Suc r"
    by simp
  then have "0 < count_list (ot_hashTable t') FREE_MARKER"
    using t'(5,6) by linarith
  then have member: "FREE_MARKER \<in> set (ot_hashTable t')"
    by (rule count_list_pos_member)
  have "set (ot_hashTable t0) \<subseteq> {FREE_MARKER}"
    by (simp only: table0) auto
  then have sub: "set (ot_hashTable t') \<subseteq> insert FREE_MARKER (set (ot_hashTable t))"
    using t'(7) by auto
  show ?thesis
  proof (intro exI [of _ t'] exI [of _ rs'] conjI)
    show "rehash_open fuel t (2 * ot_length t) = Inr t'"
      using call t'(1) by simp
    show "UpdateHashSize_probing (ot_prHashFunc t) (2 ^ Suc r) (ot_rand t)
        = Inr (ot_prHashFunc t', rs')"
      using upd t'(2) sel0(1) by simp
    show "ot_length t' = 2 ^ Suc r"
      using t'(3) sel0(2) by simp
    show "length (ot_hashTable t') = 2 ^ Suc r"
      by (rule t'(4))
    show "FREE_MARKER \<in> set (ot_hashTable t')"
      by (rule member)
    show "set (ot_hashTable t') \<subseteq> insert FREE_MARKER (set (ot_hashTable t))"
      by (rule sub)
  qed
qed

subsection \<open>The slot of a new key\<close>

text \<open>
  C2, as the claim states it, fails. After \<^verbatim>\<open>insert(5)\<close> and \<^verbatim>\<open>remove(5)\<close> slot 5 holds a
  tombstone. The probe sequence of 13 starts at slot 5, but \<^verbatim>\<open>insert(13)\<close> leaves the
  tombstone where it is and stores 13 in slot 6, the first free slot.
\<close>

theorem insert_open_skips_tombstone:
  "and_then (new_OpenTable (LinearProbingHashFunction 8 (DivisionHashFunction 8)) (sconst 0))
     (\<lambda>t. and_then (insert_open 9 t 5)
       (\<lambda>t. and_then (remove_open 9 t 5)
         (\<lambda>t. insert_open 9 t 13)))
   = Inr \<lparr>ot_length = 8, ot_num_entries = 1,
          ot_prHashFunc = LinearProbingHashFunction 8 (DivisionHashFunction 8),
          ot_hashTable = [0xFFFFFFFF, 0xFFFFFFFF, 0xFFFFFFFF, 0xFFFFFFFF, 0xFFFFFFFF,
                          0xFFFFFFFE, 13, 0xFFFFFFFF],
          ot_rand = sconst 0\<rparr>"
  by (simp add: and_then_def table_defs fuel_numeral)

text \<open>
  C2, amended. Take a table of length \<open>M = 2 ^ r\<close>, \<open>1 \<le> r \<le> 30\<close>, with an array of \<open>M\<close>
  slots and a probing function that has been set to \<open>M\<close>, as the constructor and every
  rebuild leave it, and a key other than \<open>FREE_MARKER\<close> that no slot holds. If the load
  factor is 0.5 or more, or if some slot holds \<open>FREE_MARKER\<close>, then \<^verbatim>\<open>insert\<close> returns. Let
  \<open>t'\<close> be the table after its first step, which rebuilds the table at length \<open>2 * M\<close> when
  the load factor is 0.5 or more and leaves it as it is otherwise. \<^verbatim>\<open>insert\<close> stores the key
  in the first slot along the probe sequence of the key that holds \<open>FREE_MARKER\<close> in \<open>t'\<close>,
  and increments \<open>num_entries\<close>; every other slot, the tombstones and the keys before that
  slot among them, keeps what it holds. \<open>j\<close> is the trial number of the slot; \<open>fuel\<close>
  bounds the nested calls and the trials of a probe loop, and any bound above \<open>2 * M + 1\<close>
  is enough.
\<close>

theorem insert_open_first_free:
  assumes r: "0 < r" "r < 31"
    and upd: "UpdateHashSize_probing prh (2 ^ r) rs = Inr (ot_prHashFunc t, rs')"
    and len: "ot_length t = 2 ^ r" "length (ot_hashTable t) = 2 ^ r"
    and free: "load_factor_ge_half t \<or> FREE_MARKER \<in> set (ot_hashTable t)"
    and absent: "key \<notin> set (ot_hashTable t)" "key \<noteq> FREE_MARKER"
    and fuel: "2 ^ Suc r + 1 < fuel"
  shows "\<exists>t' j index.
      (if load_factor_ge_half t then rehash_open fuel t (2 * ot_length t) else Inr t) = Inr t'
    \<and> ot_length t' = (if load_factor_ge_half t then 2 * ot_length t else ot_length t)
    \<and> key \<notin> set (ot_hashTable t')
    \<and> (\<forall>i<j. \<exists>ix. probe_apply (ot_prHashFunc t') key (of_nat i) = Inr ix
          \<and> unat ix < length (ot_hashTable t')
          \<and> ot_hashTable t' ! unat ix \<noteq> FREE_MARKER)
    \<and> probe_apply (ot_prHashFunc t') key (of_nat j) = Inr index
    \<and> unat index < length (ot_hashTable t')
    \<and> ot_hashTable t' ! unat index = FREE_MARKER
    \<and> insert_open (Suc fuel) t key
        = Inr (t'\<lparr>ot_hashTable := (ot_hashTable t')[unat index := key],
                  ot_num_entries := ot_num_entries t' + 1\<rparr>)"
proof -
  have r32: "r < 32"
    using r(2) by simp
  obtain t' q where t':
      "(if load_factor_ge_half t then rehash_open fuel t (2 * ot_length t) else Inr t) = Inr t'"
      "ot_length t' = (if load_factor_ge_half t then 2 * ot_length t else ot_length t)"
      "probing_ok (ot_prHashFunc t') q" "length (ot_hashTable t') = 2 ^ q"
      "FREE_MARKER \<in> set (ot_hashTable t')"
      "set (ot_hashTable t') \<subseteq> insert FREE_MARKER (set (ot_hashTable t))"
      "2 ^ q < fuel"
  proof (cases "load_factor_ge_half t")
    case True
    obtain t1 rs1 where t1: "rehash_open fuel t (2 * ot_length t) = Inr t1"
        "UpdateHashSize_probing (ot_prHashFunc t) (2 ^ Suc r) (ot_rand t)
          = Inr (ot_prHashFunc t1, rs1)"
        "ot_length t1 = 2 ^ Suc r" "length (ot_hashTable t1) = 2 ^ Suc r"
        "FREE_MARKER \<in> set (ot_hashTable t1)"
        "set (ot_hashTable t1) \<subseteq> insert FREE_MARKER (set (ot_hashTable t))"
      using rehash_open_grow_returns [OF r(2) len fuel] by blast
    have "0 < Suc r" "Suc r < 32"
      using r(2) by simp_all
    then have ok: "probing_ok (ot_prHashFunc t1) (Suc r)"
      using t1(2) by (rule probing_ok_UpdateHashSize)
    have a: "(if load_factor_ge_half t then rehash_open fuel t (2 * ot_length t) else Inr t)
        = Inr t1"
      using True t1(1) by simp
    have b: "ot_length t1 = (if load_factor_ge_half t then 2 * ot_length t else ot_length t)"
      using True t1(3) len(1) by simp
    have c: "2 ^ Suc r < fuel"
      using fuel by simp
    show ?thesis
      using a b ok t1(4,5,6) c by (rule that)
  next
    case False
    have ok: "probing_ok (ot_prHashFunc t) r"
      using r(1) r32 upd by (rule probing_ok_UpdateHashSize)
    have a: "(if load_factor_ge_half t then rehash_open fuel t (2 * ot_length t) else Inr t)
        = Inr t"
      using False by simp
    have b: "ot_length t = (if load_factor_ge_half t then 2 * ot_length t else ot_length t)"
      using False by simp
    have c: "FREE_MARKER \<in> set (ot_hashTable t)"
      using False free by simp
    have d: "set (ot_hashTable t) \<subseteq> insert FREE_MARKER (set (ot_hashTable t))"
      by auto
    have e: "2 ^ r < fuel"
      using fuel by simp
    show ?thesis
      using a b ok len(2) c d e by (rule that)
  qed
  have absent': "key \<notin> set (ot_hashTable t')"
    using t'(6) absent by auto
  obtain j index where j: "j < 2 ^ q"
      "\<forall>i<j. \<exists>ix. probe_apply (ot_prHashFunc t') key (of_nat i) = Inr ix
          \<and> unat ix < length (ot_hashTable t')
          \<and> ot_hashTable t' ! unat ix \<noteq> FREE_MARKER
          \<and> ot_hashTable t' ! unat ix \<noteq> key"
      "probe_apply (ot_prHashFunc t') key (of_nat j) = Inr index"
      "unat index < length (ot_hashTable t')"
      "ot_hashTable t' ! unat index = FREE_MARKER \<or> ot_hashTable t' ! unat index = key"
    using first_stop_exists [OF t'(3,4,5), of key] by blast
  have ne: "ot_hashTable t' ! unat index \<noteq> key"
    using absent' j(4) nth_mem by metis
  then have slot: "ot_hashTable t' ! unat index = FREE_MARKER"
    using j(5) by simp
  have "insert_loop fuel t' key 0
    = Inr (if ot_hashTable t' ! unat index = key then None else Some index)"
  proof (rule insert_loop_stops [where d = j])
    show "j < fuel"
      using j(1) t'(7) by simp
  qed (use j in simp_all)
  then have loop: "insert_loop fuel t' key 0 = Inr (Some index)"
    using ne by simp
  have result: "insert_open (Suc fuel) t key
        = Inr (t'\<lparr>ot_hashTable := (ot_hashTable t')[unat index := key],
                  ot_num_entries := ot_num_entries t' + 1\<rparr>)"
    using t'(1) loop by simp
  have before: "\<forall>i<j. \<exists>ix. probe_apply (ot_prHashFunc t') key (of_nat i) = Inr ix
          \<and> unat ix < length (ot_hashTable t')
          \<and> ot_hashTable t' ! unat ix \<noteq> FREE_MARKER"
    using j(2) by blast
  show ?thesis
    by (intro exI [of _ t'] exI [of _ j] exI [of _ index] conjI
        t'(1) t'(2) absent' before j(3) j(4) slot result)
qed

theorem insert_open_first_free_witness:
  "(0::nat) < 3 \<and> (3::nat) < 31
   \<and> UpdateHashSize_probing (LinearProbingHashFunction 5 (DivisionHashFunction 5)) (2 ^ 3)
        (sconst 0)
      = Inr (LinearProbingHashFunction 8 (DivisionHashFunction 8), sconst 0)
   \<and> (2::nat) ^ Suc 3 + 1 < 18
   \<and> load_factor_ge_half \<lparr>ot_length = 8, ot_num_entries = 4,
          ot_prHashFunc = LinearProbingHashFunction 8 (DivisionHashFunction 8),
          ot_hashTable = [29, 0xFFFFFFFE, 0xFFFFFFFF, 0xFFFFFFFF, 0xFFFFFFFF, 5, 13, 21],
          ot_rand = sconst 0\<rparr>
   \<and> 37 \<notin> set [29, 0xFFFFFFFE, 0xFFFFFFFF, 0xFFFFFFFF, 0xFFFFFFFF, 5, 13, 21 :: u32]
   \<and> (37 :: u32) \<noteq> FREE_MARKER
   \<and> (\<exists>t' j index.
      (if load_factor_ge_half \<lparr>ot_length = 8, ot_num_entries = 4,
          ot_prHashFunc = LinearProbingHashFunction 8 (DivisionHashFunction 8),
          ot_hashTable = [29, 0xFFFFFFFE, 0xFFFFFFFF, 0xFFFFFFFF, 0xFFFFFFFF, 5, 13, 21],
          ot_rand = sconst 0\<rparr>
       then rehash_open 18 \<lparr>ot_length = 8, ot_num_entries = 4,
          ot_prHashFunc = LinearProbingHashFunction 8 (DivisionHashFunction 8),
          ot_hashTable = [29, 0xFFFFFFFE, 0xFFFFFFFF, 0xFFFFFFFF, 0xFFFFFFFF, 5, 13, 21],
          ot_rand = sconst 0\<rparr>
         (2 * ot_length \<lparr>ot_length = 8, ot_num_entries = 4,
          ot_prHashFunc = LinearProbingHashFunction 8 (DivisionHashFunction 8),
          ot_hashTable = [29, 0xFFFFFFFE, 0xFFFFFFFF, 0xFFFFFFFF, 0xFFFFFFFF, 5, 13, 21],
          ot_rand = sconst 0\<rparr>)
       else Inr \<lparr>ot_length = 8, ot_num_entries = 4,
          ot_prHashFunc = LinearProbingHashFunction 8 (DivisionHashFunction 8),
          ot_hashTable = [29, 0xFFFFFFFE, 0xFFFFFFFF, 0xFFFFFFFF, 0xFFFFFFFF, 5, 13, 21],
          ot_rand = sconst 0\<rparr>) = Inr t'
    \<and> ot_length t' = (if load_factor_ge_half \<lparr>ot_length = 8, ot_num_entries = 4,
          ot_prHashFunc = LinearProbingHashFunction 8 (DivisionHashFunction 8),
          ot_hashTable = [29, 0xFFFFFFFE, 0xFFFFFFFF, 0xFFFFFFFF, 0xFFFFFFFF, 5, 13, 21],
          ot_rand = sconst 0\<rparr>
        then 2 * ot_length \<lparr>ot_length = 8, ot_num_entries = 4,
          ot_prHashFunc = LinearProbingHashFunction 8 (DivisionHashFunction 8),
          ot_hashTable = [29, 0xFFFFFFFE, 0xFFFFFFFF, 0xFFFFFFFF, 0xFFFFFFFF, 5, 13, 21],
          ot_rand = sconst 0\<rparr>
        else ot_length \<lparr>ot_length = 8, ot_num_entries = 4,
          ot_prHashFunc = LinearProbingHashFunction 8 (DivisionHashFunction 8),
          ot_hashTable = [29, 0xFFFFFFFE, 0xFFFFFFFF, 0xFFFFFFFF, 0xFFFFFFFF, 5, 13, 21],
          ot_rand = sconst 0\<rparr>)
    \<and> 37 \<notin> set (ot_hashTable t')
    \<and> (\<forall>i<j. \<exists>ix. probe_apply (ot_prHashFunc t') 37 (of_nat i) = Inr ix
          \<and> unat ix < length (ot_hashTable t')
          \<and> ot_hashTable t' ! unat ix \<noteq> FREE_MARKER)
    \<and> probe_apply (ot_prHashFunc t') 37 (of_nat j) = Inr index
    \<and> unat index < length (ot_hashTable t')
    \<and> ot_hashTable t' ! unat index = FREE_MARKER
    \<and> insert_open (Suc 18) \<lparr>ot_length = 8, ot_num_entries = 4,
          ot_prHashFunc = LinearProbingHashFunction 8 (DivisionHashFunction 8),
          ot_hashTable = [29, 0xFFFFFFFE, 0xFFFFFFFF, 0xFFFFFFFF, 0xFFFFFFFF, 5, 13, 21],
          ot_rand = sconst 0\<rparr> 37
        = Inr (t'\<lparr>ot_hashTable := (ot_hashTable t')[unat index := 37],
                  ot_num_entries := ot_num_entries t' + 1\<rparr>))
   \<and> insert_open (Suc 18) \<lparr>ot_length = 8, ot_num_entries = 4,
          ot_prHashFunc = LinearProbingHashFunction 8 (DivisionHashFunction 8),
          ot_hashTable = [29, 0xFFFFFFFE, 0xFFFFFFFF, 0xFFFFFFFF, 0xFFFFFFFF, 5, 13, 21],
          ot_rand = sconst 0\<rparr> 37
      = Inr \<lparr>ot_length = 16, ot_num_entries = 5,
          ot_prHashFunc = LinearProbingHashFunction 16 (DivisionHashFunction 16),
          ot_hashTable = [0xFFFFFFFF, 0xFFFFFFFF, 0xFFFFFFFF, 0xFFFFFFFF, 0xFFFFFFFF,
                          5, 21, 37, 0xFFFFFFFF, 0xFFFFFFFF, 0xFFFFFFFF, 0xFFFFFFFF,
                          0xFFFFFFFF, 29, 13, 0xFFFFFFFF],
          ot_rand = sconst 0\<rparr>
   \<and> \<not> load_factor_ge_half \<lparr>ot_length = 8, ot_num_entries = 0,
          ot_prHashFunc = LinearProbingHashFunction 8 (DivisionHashFunction 8),
          ot_hashTable = [0xFFFFFFFF, 0xFFFFFFFF, 0xFFFFFFFF, 0xFFFFFFFF, 0xFFFFFFFF,
                          0xFFFFFFFE, 0xFFFFFFFF, 0xFFFFFFFF],
          ot_rand = sconst 0\<rparr>
   \<and> FREE_MARKER \<in> set [0xFFFFFFFF, 0xFFFFFFFF, 0xFFFFFFFF, 0xFFFFFFFF, 0xFFFFFFFF,
                          0xFFFFFFFE, 0xFFFFFFFF, 0xFFFFFFFF :: u32]
   \<and> 13 \<notin> set [0xFFFFFFFF, 0xFFFFFFFF, 0xFFFFFFFF, 0xFFFFFFFF, 0xFFFFFFFF,
                          0xFFFFFFFE, 0xFFFFFFFF, 0xFFFFFFFF :: u32]
   \<and> (13 :: u32) \<noteq> FREE_MARKER
   \<and> (\<exists>t' j index.
      (if load_factor_ge_half \<lparr>ot_length = 8, ot_num_entries = 0,
          ot_prHashFunc = LinearProbingHashFunction 8 (DivisionHashFunction 8),
          ot_hashTable = [0xFFFFFFFF, 0xFFFFFFFF, 0xFFFFFFFF, 0xFFFFFFFF, 0xFFFFFFFF,
                          0xFFFFFFFE, 0xFFFFFFFF, 0xFFFFFFFF],
          ot_rand = sconst 0\<rparr>
       then rehash_open 18 \<lparr>ot_length = 8, ot_num_entries = 0,
          ot_prHashFunc = LinearProbingHashFunction 8 (DivisionHashFunction 8),
          ot_hashTable = [0xFFFFFFFF, 0xFFFFFFFF, 0xFFFFFFFF, 0xFFFFFFFF, 0xFFFFFFFF,
                          0xFFFFFFFE, 0xFFFFFFFF, 0xFFFFFFFF],
          ot_rand = sconst 0\<rparr>
         (2 * ot_length \<lparr>ot_length = 8, ot_num_entries = 0,
          ot_prHashFunc = LinearProbingHashFunction 8 (DivisionHashFunction 8),
          ot_hashTable = [0xFFFFFFFF, 0xFFFFFFFF, 0xFFFFFFFF, 0xFFFFFFFF, 0xFFFFFFFF,
                          0xFFFFFFFE, 0xFFFFFFFF, 0xFFFFFFFF],
          ot_rand = sconst 0\<rparr>)
       else Inr \<lparr>ot_length = 8, ot_num_entries = 0,
          ot_prHashFunc = LinearProbingHashFunction 8 (DivisionHashFunction 8),
          ot_hashTable = [0xFFFFFFFF, 0xFFFFFFFF, 0xFFFFFFFF, 0xFFFFFFFF, 0xFFFFFFFF,
                          0xFFFFFFFE, 0xFFFFFFFF, 0xFFFFFFFF],
          ot_rand = sconst 0\<rparr>) = Inr t'
    \<and> ot_length t' = (if load_factor_ge_half \<lparr>ot_length = 8, ot_num_entries = 0,
          ot_prHashFunc = LinearProbingHashFunction 8 (DivisionHashFunction 8),
          ot_hashTable = [0xFFFFFFFF, 0xFFFFFFFF, 0xFFFFFFFF, 0xFFFFFFFF, 0xFFFFFFFF,
                          0xFFFFFFFE, 0xFFFFFFFF, 0xFFFFFFFF],
          ot_rand = sconst 0\<rparr>
        then 2 * ot_length \<lparr>ot_length = 8, ot_num_entries = 0,
          ot_prHashFunc = LinearProbingHashFunction 8 (DivisionHashFunction 8),
          ot_hashTable = [0xFFFFFFFF, 0xFFFFFFFF, 0xFFFFFFFF, 0xFFFFFFFF, 0xFFFFFFFF,
                          0xFFFFFFFE, 0xFFFFFFFF, 0xFFFFFFFF],
          ot_rand = sconst 0\<rparr>
        else ot_length \<lparr>ot_length = 8, ot_num_entries = 0,
          ot_prHashFunc = LinearProbingHashFunction 8 (DivisionHashFunction 8),
          ot_hashTable = [0xFFFFFFFF, 0xFFFFFFFF, 0xFFFFFFFF, 0xFFFFFFFF, 0xFFFFFFFF,
                          0xFFFFFFFE, 0xFFFFFFFF, 0xFFFFFFFF],
          ot_rand = sconst 0\<rparr>)
    \<and> 13 \<notin> set (ot_hashTable t')
    \<and> (\<forall>i<j. \<exists>ix. probe_apply (ot_prHashFunc t') 13 (of_nat i) = Inr ix
          \<and> unat ix < length (ot_hashTable t')
          \<and> ot_hashTable t' ! unat ix \<noteq> FREE_MARKER)
    \<and> probe_apply (ot_prHashFunc t') 13 (of_nat j) = Inr index
    \<and> unat index < length (ot_hashTable t')
    \<and> ot_hashTable t' ! unat index = FREE_MARKER
    \<and> insert_open (Suc 18) \<lparr>ot_length = 8, ot_num_entries = 0,
          ot_prHashFunc = LinearProbingHashFunction 8 (DivisionHashFunction 8),
          ot_hashTable = [0xFFFFFFFF, 0xFFFFFFFF, 0xFFFFFFFF, 0xFFFFFFFF, 0xFFFFFFFF,
                          0xFFFFFFFE, 0xFFFFFFFF, 0xFFFFFFFF],
          ot_rand = sconst 0\<rparr> 13
        = Inr (t'\<lparr>ot_hashTable := (ot_hashTable t')[unat index := 13],
                  ot_num_entries := ot_num_entries t' + 1\<rparr>))
   \<and> insert_open (Suc 18) \<lparr>ot_length = 8, ot_num_entries = 0,
          ot_prHashFunc = LinearProbingHashFunction 8 (DivisionHashFunction 8),
          ot_hashTable = [0xFFFFFFFF, 0xFFFFFFFF, 0xFFFFFFFF, 0xFFFFFFFF, 0xFFFFFFFF,
                          0xFFFFFFFE, 0xFFFFFFFF, 0xFFFFFFFF],
          ot_rand = sconst 0\<rparr> 13
      = Inr \<lparr>ot_length = 8, ot_num_entries = 1,
          ot_prHashFunc = LinearProbingHashFunction 8 (DivisionHashFunction 8),
          ot_hashTable = [0xFFFFFFFF, 0xFFFFFFFF, 0xFFFFFFFF, 0xFFFFFFFF, 0xFFFFFFFF,
                          0xFFFFFFFE, 13, 0xFFFFFFFF],
          ot_rand = sconst 0\<rparr>"
proof -
  let ?t = "\<lparr>ot_length = 8, ot_num_entries = 4,
          ot_prHashFunc = LinearProbingHashFunction 8 (DivisionHashFunction 8),
          ot_hashTable = [29, 0xFFFFFFFE, 0xFFFFFFFF, 0xFFFFFFFF, 0xFFFFFFFF, 5, 13, 21 :: u32],
          ot_rand = sconst (0 :: u32)\<rparr>"
  let ?u = "\<lparr>ot_length = 8, ot_num_entries = 0,
          ot_prHashFunc = LinearProbingHashFunction 8 (DivisionHashFunction 8),
          ot_hashTable = [0xFFFFFFFF, 0xFFFFFFFF, 0xFFFFFFFF, 0xFFFFFFFF, 0xFFFFFFFF,
                          0xFFFFFFFE, 0xFFFFFFFF, 0xFFFFFFFF :: u32],
          ot_rand = sconst (0 :: u32)\<rparr>"
  have a: "(0::nat) < 3"
    by simp
  have b: "(3::nat) < 31"
    by simp
  have c: "UpdateHashSize_probing (LinearProbingHashFunction 5 (DivisionHashFunction 5)) (2 ^ 3)
        (sconst 0)
      = Inr (LinearProbingHashFunction 8 (DivisionHashFunction 8), sconst 0)"
    by (simp add: UpdateHashSize_def)
  have i: "(2::nat) ^ Suc 3 + 1 < 18"
    by simp
  have ct: "UpdateHashSize_probing (LinearProbingHashFunction 5 (DivisionHashFunction 5))
        (2 ^ 3) (sconst 0)
      = Inr (ot_prHashFunc ?t, sconst 0)"
    using c by simp
  have dt: "ot_length ?t = 2 ^ 3"
    by simp
  have et: "length (ot_hashTable ?t) = 2 ^ 3"
    by simp
  have ft: "load_factor_ge_half ?t"
    by (simp add: load_factor_ge_half_def)
  then have ft': "load_factor_ge_half ?t \<or> FREE_MARKER \<in> set (ot_hashTable ?t)"
    by (rule disjI1)
  have gt: "37 \<notin> set [29, 0xFFFFFFFE, 0xFFFFFFFF, 0xFFFFFFFF, 0xFFFFFFFF, 5, 13, 21 :: u32]"
    by simp
  then have gt': "37 \<notin> set (ot_hashTable ?t)"
    by simp
  have ht: "(37 :: u32) \<noteq> FREE_MARKER"
    by (simp add: FREE_MARKER_def)
  have rt: "insert_open (Suc 18) ?t 37
      = Inr \<lparr>ot_length = 16, ot_num_entries = 5,
          ot_prHashFunc = LinearProbingHashFunction 16 (DivisionHashFunction 16),
          ot_hashTable = [0xFFFFFFFF, 0xFFFFFFFF, 0xFFFFFFFF, 0xFFFFFFFF, 0xFFFFFFFF,
                          5, 21, 37, 0xFFFFFFFF, 0xFFFFFFFF, 0xFFFFFFFF, 0xFFFFFFFF,
                          0xFFFFFFFF, 29, 13, 0xFFFFFFFF],
          ot_rand = sconst 0\<rparr>"
    by (simp add: table_defs fuel_numeral)
  have cu: "UpdateHashSize_probing (LinearProbingHashFunction 5 (DivisionHashFunction 5))
        (2 ^ 3) (sconst 0)
      = Inr (ot_prHashFunc ?u, sconst 0)"
    using c by simp
  have du: "ot_length ?u = 2 ^ 3"
    by simp
  have eu: "length (ot_hashTable ?u) = 2 ^ 3"
    by simp
  have fu: "\<not> load_factor_ge_half ?u"
    by (simp add: load_factor_ge_half_def)
  have gu: "FREE_MARKER \<in> set [0xFFFFFFFF, 0xFFFFFFFF, 0xFFFFFFFF, 0xFFFFFFFF, 0xFFFFFFFF,
                          0xFFFFFFFE, 0xFFFFFFFF, 0xFFFFFFFF :: u32]"
    by (simp add: FREE_MARKER_def)
  then have "FREE_MARKER \<in> set (ot_hashTable ?u)"
    by simp
  then have gu': "load_factor_ge_half ?u \<or> FREE_MARKER \<in> set (ot_hashTable ?u)"
    by (rule disjI2)
  have hu: "13 \<notin> set [0xFFFFFFFF, 0xFFFFFFFF, 0xFFFFFFFF, 0xFFFFFFFF, 0xFFFFFFFF,
                          0xFFFFFFFE, 0xFFFFFFFF, 0xFFFFFFFF :: u32]"
    by simp
  then have hu': "13 \<notin> set (ot_hashTable ?u)"
    by simp
  have ku: "(13 :: u32) \<noteq> FREE_MARKER"
    by (simp add: FREE_MARKER_def)
  have ru: "insert_open (Suc 18) ?u 13
      = Inr \<lparr>ot_length = 8, ot_num_entries = 1,
          ot_prHashFunc = LinearProbingHashFunction 8 (DivisionHashFunction 8),
          ot_hashTable = [0xFFFFFFFF, 0xFFFFFFFF, 0xFFFFFFFF, 0xFFFFFFFF, 0xFFFFFFFF,
                          0xFFFFFFFE, 13, 0xFFFFFFFF],
          ot_rand = sconst 0\<rparr>"
    by (simp add: table_defs fuel_numeral)
  show ?thesis
    by (intro conjI a b c i ft gt ht rt fu gu hu ku ru
        insert_open_first_free [OF a b ct dt et ft' gt' ht i]
        insert_open_first_free [OF a b cu du eu gu' hu' ku i])
qed
section \<open>Inserting the value that means not found\<close>

lemma insert_loop_free_marker:
  "insert_loop fuel t FREE_MARKER probe \<noteq> Inr (Some index)"
proof (induction fuel arbitrary: probe)
  case 0
  show ?case
    by simp
next
  case (Suc fuel)
  show ?case
  proof (cases "probe_apply (ot_prHashFunc t) FREE_MARKER probe")
    case (Inl e)
    then show ?thesis
      by simp
  next
    case (Inr ix)
    then show ?thesis
      using Suc.IH [of "probe + 1"] by simp
  qed
qed

lemma insert_open_free_marker:
  assumes "insert_open fuel t FREE_MARKER = Inr t'"
  shows "\<exists>f. fuel = Suc f
    \<and> (if load_factor_ge_half t then rehash_open f t (2 * ot_length t) else Inr t) = Inr t'"
proof (cases fuel)
  case 0
  with assms show ?thesis
    by simp
next
  case (Suc f)
  let ?grow = "if load_factor_ge_half t then rehash_open f t (2 * ot_length t) else Inr t"
  obtain t1 where t1: "?grow = Inr t1"
    using assms Suc by (cases ?grow) simp_all
  have "insert_loop f t1 FREE_MARKER 0 = Inr None"
  proof (cases "insert_loop f t1 FREE_MARKER 0")
    case (Inl e)
    with assms Suc t1 show ?thesis
      by simp
  next
    case (Inr found)
    then show ?thesis
      using insert_loop_free_marker [of f t1 0] by (cases found) simp_all
  qed
  then have "t' = t1"
    using assms Suc t1 by simp
  then show ?thesis
    using Suc t1 by simp
qed

lemma insert_chain_stores:
  assumes "insert_chain fuel c key = Inr c'"
  shows "\<exists>hkey. hash_apply (ct_hashFunc c') key = Inr hkey
    \<and> unat hkey < length (ct_hashTable c')
    \<and> key \<in> set (ct_hashTable c' ! unat hkey)"
proof (cases fuel)
  case 0
  with assms show ?thesis
    by simp
next
  case (Suc f)
  let ?grow = "if ct_length c = ct_num_entries c then rehash_chain f c (2 * ct_length c)
    else Inr c"
  obtain c1 where c1: "?grow = Inr c1"
    using assms Suc by (cases ?grow) simp_all
  obtain hkey where hkey: "hash_apply (ct_hashFunc c1) key = Inr hkey"
    using assms Suc c1 by (cases "hash_apply (ct_hashFunc c1) key") simp_all
  have range: "unat hkey < length (ct_hashTable c1)"
    using assms Suc c1 hkey by (simp split: if_splits)
  then have "c' = c1\<lparr>ct_hashTable :=
      (ct_hashTable c1)[unat hkey := ct_hashTable c1 ! unat hkey @ [key]],
      ct_num_entries := ct_num_entries c1 + 1\<rparr>"
    using assms Suc c1 hkey by simp
  then show ?thesis
    using hkey range by simp
qed

text \<open>
  C7, as the claim states it, fails for the chaining table: \<^verbatim>\<open>insert(0xFFFFFFFF)\<close> on a new
  table appends the value to chain 7 and counts it.
\<close>

theorem insert_chain_stores_invalid_key:
  "and_then (new_ChainTable Division (sconst 0) (sconst 0)) (\<lambda>t. insert_chain 3 t INVALID_KEY)
   = Inr \<lparr>ct_length = 8, ct_num_entries = 1, ct_hashFunc = DivisionHashFunction 8,
          ct_hashTable = [[], [], [], [], [], [], [], [0xFFFFFFFF]], ct_rand = sconst 0\<rparr>"
  by (simp add: and_then_def table_defs fuel_numeral)

text \<open>
  C7, amended. In the open-addressing table 0xFFFFFFFF is the mark of a free slot, so no
  slot can hold it as a key, and \<^verbatim>\<open>insert(0xFFFFFFFF)\<close>, whenever it returns, returns the
  table as its first step left it (rebuilt at twice the length if the load factor was
  0.5 or more, and the same table otherwise): it stores nothing and counts nothing. The
  chaining table has no such guard: its \<^verbatim>\<open>insert(0xFFFFFFFF)\<close>, whenever it returns, has
  stored the value in the chain of its hash index.
\<close>

theorem invalid_key_insertion:
  "(insert_open fuel t INVALID_KEY = Inr t' \<longrightarrow>
      (\<exists>f. fuel = Suc f
        \<and> (if load_factor_ge_half t then rehash_open f t (2 * ot_length t) else Inr t) = Inr t'))
   \<and> (insert_chain fuel c INVALID_KEY = Inr c' \<longrightarrow>
      (\<exists>hkey. hash_apply (ct_hashFunc c') INVALID_KEY = Inr hkey
        \<and> unat hkey < length (ct_hashTable c')
        \<and> INVALID_KEY \<in> set (ct_hashTable c' ! unat hkey)))"
proof -
  have "INVALID_KEY = FREE_MARKER"
    by (simp add: INVALID_KEY_def FREE_MARKER_def)
  then show ?thesis
    using insert_open_free_marker [of fuel t t'] insert_chain_stores [of fuel c INVALID_KEY c']
    by simp
qed

theorem invalid_key_insertion_witness:
  "insert_open 3 \<lparr>ot_length = 8, ot_num_entries = 1,
          ot_prHashFunc = LinearProbingHashFunction 8 (DivisionHashFunction 8),
          ot_hashTable = [0xFFFFFFFF, 0xFFFFFFFF, 0xFFFFFFFF, 0xFFFFFFFF, 0xFFFFFFFF,
                          0xFFFFFFFF, 0xFFFFFFFF, 7],
          ot_rand = sconst 0\<rparr> INVALID_KEY
     = Inr \<lparr>ot_length = 8, ot_num_entries = 1,
          ot_prHashFunc = LinearProbingHashFunction 8 (DivisionHashFunction 8),
          ot_hashTable = [0xFFFFFFFF, 0xFFFFFFFF, 0xFFFFFFFF, 0xFFFFFFFF, 0xFFFFFFFF,
                          0xFFFFFFFF, 0xFFFFFFFF, 7],
          ot_rand = sconst 0\<rparr>
   \<and> insert_chain 3 \<lparr>ct_length = 8, ct_num_entries = 0, ct_hashFunc = DivisionHashFunction 8,
          ct_hashTable = [[], [], [], [], [], [], [], []], ct_rand = sconst 0\<rparr> INVALID_KEY
     = Inr \<lparr>ct_length = 8, ct_num_entries = 1, ct_hashFunc = DivisionHashFunction 8,
          ct_hashTable = [[], [], [], [], [], [], [], [0xFFFFFFFF]], ct_rand = sconst 0\<rparr>
   \<and> hash_apply (DivisionHashFunction 8) INVALID_KEY = Inr 7"
proof -
  let ?t = "\<lparr>ot_length = 8, ot_num_entries = 1,
          ot_prHashFunc = LinearProbingHashFunction 8 (DivisionHashFunction 8),
          ot_hashTable = [0xFFFFFFFF, 0xFFFFFFFF, 0xFFFFFFFF, 0xFFFFFFFF, 0xFFFFFFFF,
                          0xFFFFFFFF, 0xFFFFFFFF, 7 :: u32],
          ot_rand = sconst (0 :: u32)\<rparr>"
  let ?c = "\<lparr>ct_length = 8, ct_num_entries = 0, ct_hashFunc = DivisionHashFunction 8,
          ct_hashTable = [[], [], [], [], [], [], [], []], ct_rand = sconst (0 :: u32)\<rparr>"
  let ?c' = "\<lparr>ct_length = 8, ct_num_entries = 1, ct_hashFunc = DivisionHashFunction 8,
          ct_hashTable = [[], [], [], [], [], [], [], [0xFFFFFFFF :: u32]],
          ct_rand = sconst (0 :: u32)\<rparr>"
  have a: "insert_open 3 ?t INVALID_KEY = Inr ?t"
    by (simp add: table_defs fuel_numeral)
  have b: "insert_chain 3 ?c INVALID_KEY = Inr ?c'"
    by (simp add: table_defs fuel_numeral)
  have "hash_apply (ct_hashFunc ?c') INVALID_KEY = Inr 7"
    using invalid_key_insertion [of 3 ?t ?t ?c ?c'] a b by (simp add: INVALID_KEY_def)
  then show ?thesis
    using a b by simp
qed


section \<open>Universal hashing\<close>

subsection \<open>The wheel criterion is primality\<close>

lemma prime_nat_wheel_ok:
  assumes p: "prime_nat n" and n: "4 \<le> n"
  shows "wheel_ok n"
proof -
  have only: "d = 1 \<or> d = n" if "d dvd n" for d
    using p that unfolding prime_nat_def by blast
  have "n mod 2 \<noteq> 0"
  proof
    assume "n mod 2 = 0"
    then have "2 dvd n"
      by (simp add: dvd_eq_mod_eq_0)
    then show False
      using only [of 2] n by simp
  qed
  moreover have "n mod 3 \<noteq> 0"
  proof
    assume "n mod 3 = 0"
    then have "3 dvd n"
      by (simp add: dvd_eq_mod_eq_0)
    then show False
      using only [of 3] n by simp
  qed
  moreover have "\<not> (5 + 6 * j) dvd n \<and> \<not> (7 + 6 * j) dvd n" if sq: "(5 + 6 * j)\<^sup>2 \<le> n" for j
  proof -
    have big: "7 + 6 * j < (5 + 6 * j)\<^sup>2"
    proof -
      have "7 + 6 * j < 5 * (5 + 6 * j)"
        by simp
      also have "\<dots> \<le> (5 + 6 * j) * (5 + 6 * j)"
        by (rule mult_le_mono1) simp
      finally show ?thesis
        by (simp add: power2_eq_square)
    qed
    have "\<not> (5 + 6 * j) dvd n"
    proof
      assume "(5 + 6 * j) dvd n"
      then have "5 + 6 * j = n"
        using only [of "5 + 6 * j"] by simp
      then show False
        using sq big by simp
    qed
    moreover have "\<not> (7 + 6 * j) dvd n"
    proof
      assume "(7 + 6 * j) dvd n"
      then have "7 + 6 * j = n"
        using only [of "7 + 6 * j"] by simp
      then show False
        using sq big by simp
    qed
    ultimately show ?thesis ..
  qed
  ultimately show ?thesis
    unfolding wheel_ok_def by blast
qed

lemma wheel_ok_prime_nat:
  assumes w: "wheel_ok n" and n: "4 \<le> n"
  shows "prime_nat n"
proof (rule ccontr)
  assume "\<not> prime_nat n"
  then obtain d where d: "d dvd n" "d \<noteq> 1" "d \<noteq> n"
    using n unfolding prime_nat_def by auto
  have "d \<noteq> 0"
  proof
    assume "d = 0"
    with d(1) have "n = 0"
      by simp
    with n show False
      by simp
  qed
  with d have d1: "1 < d"
    by simp
  define e where "e = (LEAST e. 1 < e \<and> e dvd n)"
  have e: "1 < e \<and> e dvd n"
    unfolding e_def using d1 d(1) by (intro LeastI [of "\<lambda>e. 1 < e \<and> e dvd n" d]) simp
  have least: "e \<le> f" if "1 < f" "f dvd n" for f
    unfolding e_def using that by (intro Least_le) simp
  have "d \<le> n"
    using d(1) n by (intro dvd_imp_le) simp_all
  with d(3) have "d < n"
    by simp
  with least [OF d1 d(1)] have en: "e < n"
    by simp
  obtain c where c: "n = e * c"
    using e by (auto elim: dvdE)
  have "c \<noteq> 1" "c \<noteq> 0"
    using c en n by auto
  then have "1 < c"
    by simp
  moreover have "c dvd n"
    using c by simp
  ultimately have "e \<le> c"
    by (rule least)
  then have "e * e \<le> e * c"
    by simp
  then have sq: "e\<^sup>2 \<le> n"
    using c by (simp add: power2_eq_square)
  have own: "f = e" if "1 < f" "f dvd e" for f
  proof -
    have "f dvd n"
      using that(2) e by (meson dvd_trans)
    with that(1) have "e \<le> f"
      by (rule least)
    moreover have "f \<le> e"
      using that(2) e by (intro dvd_imp_le) simp_all
    ultimately show ?thesis
      by simp
  qed
  have w2: "n mod 2 \<noteq> 0" and w3: "n mod 3 \<noteq> 0"
    using w unfolding wheel_ok_def by simp_all
  have e2: "\<not> 2 dvd e"
  proof
    assume "2 dvd e"
    then have "e = 2"
      using own [of 2] by simp
    with e show False
      using w2 by (simp add: dvd_eq_mod_eq_0)
  qed
  have e3: "\<not> 3 dvd e"
  proof
    assume "3 dvd e"
    then have "e = 3"
      using own [of 3] by simp
    with e show False
      using w3 by (simp add: dvd_eq_mod_eq_0)
  qed
  have "e mod 6 = 1 \<or> e mod 6 = 5"
    using e2 e3 by presburger
  then show False
  proof
    assume m: "e mod 6 = 5"
    have eq: "e = 5 + 6 * (e div 6)"
      using m div_mult_mod_eq [of e 6] by simp
    have "(5 + 6 * (e div 6))\<^sup>2 \<le> n"
      using sq eq by simp
    then have "\<not> (5 + 6 * (e div 6)) dvd n"
      using w unfolding wheel_ok_def by blast
    then show False
      using eq e by simp
  next
    assume m: "e mod 6 = 1"
    have "e div 6 \<noteq> 0"
    proof
      assume "e div 6 = 0"
      then have "e = 1"
        using m div_mult_mod_eq [of e 6] by simp
      then show False
        using e by simp
    qed
    then obtain j where j: "e div 6 = Suc j"
      using not0_implies_Suc by blast
    have eq: "e = 7 + 6 * j"
      using m j div_mult_mod_eq [of e 6] by simp
    have "5 + 6 * j \<le> e"
      using eq by simp
    then have "(5 + 6 * j)\<^sup>2 \<le> e\<^sup>2"
      by (rule power_mono) simp
    from this sq have "(5 + 6 * j)\<^sup>2 \<le> n"
      by (rule order_trans)
    then have "\<not> (7 + 6 * j) dvd n"
      using w unfolding wheel_ok_def by blast
    then show False
      using eq e by simp
  qed
qed

lemma wheel_ok_iff_prime_nat: "4 \<le> n \<Longrightarrow> wheel_ok n = prime_nat n"
  using prime_nat_wheel_ok wheel_ok_prime_nat by blast

subsection \<open>The trial division decides the criterion\<close>

lemma unat_add_small:
  fixes x :: u32
  assumes "unat x + c < 4294967296" "c < 4294967296"
  shows "unat (x + of_nat c) = unat x + c"
proof -
  have "unat (x + of_nat c) = (unat x + unat (of_nat c :: u32)) mod 4294967296"
    by (simp add: unat_word_ariths)
  moreover have "unat (of_nat c :: u32) = c"
    using assms(2) by (simp add: unat_of_nat)
  ultimately show ?thesis
    using assms(1) by simp
qed

lemma word_mod_eq_0_dvd:
  fixes n i :: u32
  shows "n mod i = 0 \<longleftrightarrow> unat i dvd unat n"
proof -
  have "n mod i = 0 \<longleftrightarrow> unat (n mod i) = 0"
    by (simp add: unat_eq_0)
  also have "\<dots> \<longleftrightarrow> unat n mod unat i = 0"
    by (simp add: unat_mod)
  also have "\<dots> \<longleftrightarrow> unat i dvd unat n"
    by (simp add: dvd_eq_mod_eq_0)
  finally show ?thesis .
qed

lemma square_bound:
  fixes a :: nat
  assumes "a\<^sup>2 \<le> n" "n < 4294180900"
  shows "a < 65530"
proof (rule ccontr)
  assume "\<not> a < 65530"
  then have "65530 \<le> a"
    by simp
  then have "(65530::nat)\<^sup>2 \<le> a\<^sup>2"
    by (rule power_mono) simp
  then show False
    using assms by simp
qed

lemma is_prime_loop_wheel:
  assumes "unat n < 4294180900"
    and "unat i = 5 + 6 * k"
    and "unat i_sq = (5 + 6 * k)\<^sup>2"
    and "unat i_sq_step = 12 * (5 + 6 * k) + 36"
  shows "is_prime_loop n i i_sq i_sq_step
    = Inr (\<forall>j\<ge>k. (5 + 6 * j)\<^sup>2 \<le> unat n
        \<longrightarrow> \<not> (5 + 6 * j) dvd unat n \<and> \<not> (7 + 6 * j) dvd unat n)"
  using assms
proof (induction n i i_sq i_sq_step arbitrary: k rule: is_prime_loop.induct)
  case (1 n i i_sq i_sq_step)
  let ?Q = "\<lambda>j. (5 + 6 * j)\<^sup>2 \<le> unat n
    \<longrightarrow> \<not> (5 + 6 * j) dvd unat n \<and> \<not> (7 + 6 * j) dvd unat n"
  have le_iff: "i_sq \<le> n \<longleftrightarrow> (5 + 6 * k)\<^sup>2 \<le> unat n"
    using "1.prems"(3) by (simp add: word_le_nat_alt)
  show ?case
  proof (cases "i_sq \<le> n")
    case False
    have "?Q j" if "k \<le> j" for j
    proof -
      have "5 + 6 * k \<le> 5 + 6 * j"
        using that by simp
      then have "(5 + 6 * k)\<^sup>2 \<le> (5 + 6 * j)\<^sup>2"
        by (rule power_mono) simp
      moreover have "\<not> (5 + 6 * k)\<^sup>2 \<le> unat n"
        using False le_iff by simp
      ultimately have "\<not> (5 + 6 * j)\<^sup>2 \<le> unat n"
        by (meson order_trans)
      then show ?thesis
        by (simp only: simp_thms)
    qed
    then have "(\<forall>j\<ge>k. ?Q j) = True"
      by blast
    moreover have "is_prime_loop n i i_sq i_sq_step = Inr True"
      using False by (subst is_prime_loop.simps) simp
    ultimately show ?thesis
      by (simp only:)
  next
    case True
    then have sq: "(5 + 6 * k)\<^sup>2 \<le> unat n"
      using le_iff by simp
    then have small: "5 + 6 * k < 65530"
      using "1.prems"(1) by (rule square_bound)
    have i0: "i \<noteq> 0"
      using "1.prems"(2) by auto
    have i2: "unat (i + 2) = 7 + 6 * k"
      using unat_add_small [of i 2] "1.prems"(2) small by simp
    then have i20: "i + 2 \<noteq> 0"
      by auto
    have d1: "n mod i = 0 \<longleftrightarrow> (5 + 6 * k) dvd unat n"
      using "1.prems"(2) by (simp only: word_mod_eq_0_dvd)
    have d2: "n mod (i + 2) = 0 \<longleftrightarrow> (7 + 6 * k) dvd unat n"
      using i2 by (simp only: word_mod_eq_0_dvd)
    show ?thesis
    proof (cases "(5 + 6 * k) dvd unat n \<or> (7 + 6 * k) dvd unat n")
      case bad: True
      then have "\<not> ?Q k"
        using sq by (simp only: simp_thms) blast
      then have "(\<forall>j\<ge>k. ?Q j) = False"
        by blast
      moreover have "is_prime_loop n i i_sq i_sq_step = Inr False"
      proof (cases "n mod i = 0")
        case True
        then show ?thesis
          using \<open>i_sq \<le> n\<close> i0 by (subst is_prime_loop.simps) simp
      next
        case False
        then have "n mod (i + 2) = 0"
          using bad d1 d2 by (simp only: simp_thms)
        then show ?thesis
          using \<open>i_sq \<le> n\<close> i0 i20 False by (subst is_prime_loop.simps) simp
      qed
      ultimately show ?thesis
        by (simp only:)
    next
      case good: False
      have n1: "n mod i \<noteq> 0" and n2: "n mod (i + 2) \<noteq> 0"
        using good d1 d2 by (simp_all only: simp_thms de_Morgan_disj)
      have a: "unat (i + 6) = 5 + 6 * Suc k"
        using unat_add_small [of i 6] "1.prems"(2) small by simp
      have "5 + 6 * Suc k \<le> 65535"
        using small by simp
      then have "(5 + 6 * Suc k)\<^sup>2 \<le> (65535::nat)\<^sup>2"
        by (rule power_mono) simp
      moreover have "(65535::nat)\<^sup>2 < 4294967296"
        by simp
      ultimately have fits: "(5 + 6 * Suc k)\<^sup>2 < 4294967296"
        by (rule le_less_trans)
      have expand: "(5 + 6 * Suc k)\<^sup>2 = (5 + 6 * k)\<^sup>2 + (12 * (5 + 6 * k) + 36)"
        by (simp add: power2_eq_square algebra_simps)
      have "unat (i_sq + i_sq_step) = (unat i_sq + unat i_sq_step) mod 4294967296"
        by (simp add: unat_word_ariths)
      also have "\<dots> = (5 + 6 * Suc k)\<^sup>2 mod 4294967296"
        by (simp only: "1.prems"(3,4) expand)
      also have "\<dots> = (5 + 6 * Suc k)\<^sup>2"
        using fits by (rule mod_less)
      finally have b: "unat (i_sq + i_sq_step) = (5 + 6 * Suc k)\<^sup>2" .
      have c: "unat (i_sq_step + 72) = 12 * (5 + 6 * Suc k) + 36"
        using unat_add_small [of i_sq_step 72] "1.prems"(4) small by simp
      have "is_prime_loop n (i + 6) (i_sq + i_sq_step) (i_sq_step + 72)
          = Inr (\<forall>j\<ge>Suc k. ?Q j)"
        using True i0 n1 i20 n2 "1.prems"(1) a b c by (rule "1.IH")
      moreover have "is_prime_loop n i i_sq i_sq_step
          = is_prime_loop n (i + 6) (i_sq + i_sq_step) (i_sq_step + 72)"
        using True i0 n1 i20 n2 by (subst is_prime_loop.simps) simp
      moreover have "(\<forall>j\<ge>Suc k. ?Q j) = (\<forall>j\<ge>k. ?Q j)"
      proof
        assume all: "\<forall>j\<ge>Suc k. ?Q j"
        show "\<forall>j\<ge>k. ?Q j"
        proof (intro allI impI)
          fix j
          assume "k \<le> j" and "(5 + 6 * j)\<^sup>2 \<le> unat n"
          show "\<not> (5 + 6 * j) dvd unat n \<and> \<not> (7 + 6 * j) dvd unat n"
          proof (cases "j = k")
            case True
            then show ?thesis
              using good by (simp only: simp_thms de_Morgan_disj)
          next
            case False
            then have "Suc k \<le> j"
              using \<open>k \<le> j\<close> by simp
            then show ?thesis
              using all \<open>(5 + 6 * j)\<^sup>2 \<le> unat n\<close> by blast
          qed
        qed
      next
        assume all: "\<forall>j\<ge>k. ?Q j"
        show "\<forall>j\<ge>Suc k. ?Q j"
          using all Suc_leD by blast
      qed
      ultimately show ?thesis
        by (simp only:)
    qed
  qed
qed

lemma is_prime_wheel:
  assumes "unat n < 4294180900"
  shows "is_prime n = Inr (wheel_ok (unat n))"
proof -
  have m2: "n mod 2 = 0 \<longleftrightarrow> unat n mod 2 = 0"
    using word_mod_eq_0_dvd [of n 2] by (simp add: dvd_eq_mod_eq_0)
  have m3: "n mod 3 = 0 \<longleftrightarrow> unat n mod 3 = 0"
    using word_mod_eq_0_dvd [of n 3] by (simp add: dvd_eq_mod_eq_0)
  have loop: "is_prime_loop n 5 25 96
    = Inr (\<forall>j\<ge>0. (5 + 6 * j)\<^sup>2 \<le> unat n
        \<longrightarrow> \<not> (5 + 6 * j) dvd unat n \<and> \<not> (7 + 6 * j) dvd unat n)"
    using assms by (rule is_prime_loop_wheel) simp_all
  show ?thesis
  proof (cases "n mod 2 = 0 \<or> n mod 3 = 0")
    case True
    then have "unat n mod 2 = 0 \<or> unat n mod 3 = 0"
      using m2 m3 by (simp only:)
    then have "\<not> wheel_ok (unat n)"
      unfolding wheel_ok_def by auto
    then show ?thesis
      using True by (simp add: is_prime_def)
  next
    case False
    then have "n mod 2 \<noteq> 0" "n mod 3 \<noteq> 0"
      by simp_all
    then have "unat n mod 2 \<noteq> 0 \<and> unat n mod 3 \<noteq> 0"
      using m2 m3 by simp
    then have "wheel_ok (unat n) \<longleftrightarrow> (\<forall>j\<ge>0. (5 + 6 * j)\<^sup>2 \<le> unat n
        \<longrightarrow> \<not> (5 + 6 * j) dvd unat n \<and> \<not> (7 + 6 * j) dvd unat n)"
      unfolding wheel_ok_def by simp
    then show ?thesis
      using False loop by (simp add: is_prime_def)
  qed
qed

lemma is_prime_prime_nat:
  assumes "4 \<le> unat n" "unat n < 4294180900"
  shows "is_prime n = Inr (prime_nat (unat n))"
  using is_prime_wheel [OF assms(2)] wheel_ok_iff_prime_nat [OF assms(1)] by simp

lemma least_prime_larger_than_least:
  assumes "prime_nat q" "q < 4294180900" "3 \<le> unat n" "unat n < q"
  shows "\<exists>P. least_prime_larger_than n = Inr P \<and> prime_nat (unat P) \<and> unat n < unat P
    \<and> unat P \<le> q \<and> (\<forall>p. unat n < p \<and> p < unat P \<longrightarrow> \<not> prime_nat p)"
  using assms(3,4)
proof (induction "q - unat n" arbitrary: n rule: less_induct)
  case less
  have succ: "unat (n + 1) = unat n + 1"
    using unat_add_small [of n 1] less.prems(2) assms(2) by simp
  have val: "is_prime (n + 1) = Inr (prime_nat (unat n + 1))"
    using is_prime_prime_nat [of "n + 1"] succ less.prems assms(2) by simp
  show ?case
  proof (cases "prime_nat (unat n + 1)")
    case True
    then have "least_prime_larger_than n = Inr (n + 1)"
      using val by (subst least_prime_larger_than.simps) simp
    moreover have "\<not> prime_nat p" if "unat n < p \<and> p < unat (n + 1)" for p
    proof -
      have False
        using that succ by linarith
      then show ?thesis ..
    qed
    ultimately show ?thesis
      using True succ less.prems(2) by auto
  next
    case False
    then have "unat n + 1 \<noteq> q"
      using assms(1) by auto
    then have lt: "unat (n + 1) < q"
      using succ less.prems(2) by simp
    moreover have "q - unat (n + 1) < q - unat n"
      using succ less.prems(2) by simp
    moreover have "3 \<le> unat (n + 1)"
      using succ less.prems(1) by simp
    ultimately obtain P where P: "least_prime_larger_than (n + 1) = Inr P"
        "prime_nat (unat P)" "unat (n + 1) < unat P" "unat P \<le> q"
        "\<forall>p. unat (n + 1) < p \<and> p < unat P \<longrightarrow> \<not> prime_nat p"
      using less.hyps [of "n + 1"] by blast
    have "least_prime_larger_than n = Inr P"
      using val False P(1) by (subst least_prime_larger_than.simps) simp
    moreover have "\<not> prime_nat p" if "unat n < p \<and> p < unat P" for p
    proof (cases "p = unat n + 1")
      case True
      then show ?thesis
        using False by simp
    next
      case False
      then have "unat (n + 1) < p \<and> p < unat P"
        using that succ by simp
      then show ?thesis
        using P(5) by blast
    qed
    ultimately show ?thesis
      using P(2,3,4) succ by auto
  qed
qed

subsection \<open>A prime above every table length\<close>

lemma prime_divisor_exists:
  assumes "1 < m"
  shows "\<exists>p. prime_nat p \<and> p dvd m"
proof -
  define e where "e = (LEAST e. 1 < e \<and> e dvd m)"
  have e: "1 < e \<and> e dvd m"
    unfolding e_def using assms by (intro LeastI [of "\<lambda>e. 1 < e \<and> e dvd m" m]) simp
  have least: "e \<le> f" if "1 < f" "f dvd m" for f
    unfolding e_def using that by (intro Least_le) simp
  have "f = 1 \<or> f = e" if "f dvd e" for f
  proof (cases "f = 1")
    case True
    then show ?thesis ..
  next
    case False
    have "f \<noteq> 0"
    proof
      assume "f = 0"
      with that have "e = 0"
        by simp
      with e show False
        by simp
    qed
    with False have "1 < f"
      by simp
    moreover have "f dvd m"
      using that e by (meson dvd_trans)
    ultimately have "e \<le> f"
      by (rule least)
    moreover have "f \<le> e"
      using that e by (intro dvd_imp_le) simp_all
    ultimately show ?thesis
      by simp
  qed
  then have "prime_nat e"
    using e unfolding prime_nat_def by blast
  then show ?thesis
    using e by blast
qed

lemma lucas_prime:
  fixes a N :: nat
  assumes N: "1 < N" and one: "a ^ (N - 1) mod N = 1"
    and gen: "\<And>p. prime_nat p \<Longrightarrow> p dvd N - 1 \<Longrightarrow> a ^ ((N - 1) div p) mod N \<noteq> 1"
  shows "prime_nat N"
proof -
  let ?P = "\<lambda>e. 0 < e \<and> a ^ e mod N = 1"
  define d where "d = (LEAST e. ?P e)"
  have PN: "?P (N - 1)"
    using N one by simp
  have d: "?P d"
    unfolding d_def using PN by (rule LeastI)
  have least: "d \<le> e" if "?P e" for e
    unfolding d_def using that by (rule Least_le)
  have pow_d: "a ^ (d * k) mod N = 1" for k
  proof -
    have "a ^ (d * k) mod N = (a ^ d mod N) ^ k mod N"
      by (simp add: power_mult power_mod)
    then show ?thesis
      using d N by simp
  qed
  have d_dvd: "d dvd e" if "a ^ e mod N = 1" for e
  proof -
    have "a ^ e = a ^ (d * (e div d) + e mod d)"
      by simp
    also have "\<dots> = a ^ (d * (e div d)) * a ^ (e mod d)"
      by (rule power_add)
    finally have "a ^ e mod N = (a ^ (d * (e div d)) mod N) * (a ^ (e mod d) mod N) mod N"
      by (simp only: mod_mult_eq)
    then have r1: "a ^ (e mod d) mod N = 1"
      using that pow_d [of "e div d"] by simp
    have "e mod d = 0"
    proof (rule ccontr)
      assume "e mod d \<noteq> 0"
      then have "?P (e mod d)"
        using r1 by simp
      then have "d \<le> e mod d"
        by (rule least)
      moreover have "e mod d < d"
        using d by simp
      ultimately show False
        by simp
    qed
    then show ?thesis
      by (simp add: dvd_eq_mod_eq_0)
  qed
  have dvdN: "d dvd N - 1"
    using one by (rule d_dvd)
  have dN: "d = N - 1"
  proof (rule ccontr)
    assume ne: "d \<noteq> N - 1"
    obtain m where m: "N - 1 = d * m"
      using dvdN by (auto elim: dvdE)
    have "m \<noteq> 0"
    proof
      assume "m = 0"
      with m have "N - 1 = 0"
        by simp
      with N show False
        by simp
    qed
    moreover have "m \<noteq> 1"
      using m ne by auto
    ultimately have "1 < m"
      by simp
    then obtain p where p: "prime_nat p" "p dvd m"
      using prime_divisor_exists by blast
    obtain c where c: "m = p * c"
      using p(2) by (auto elim: dvdE)
    have pd: "p dvd N - 1"
      using m c by simp
    have p0: "0 < p"
      using p(1) unfolding prime_nat_def by simp
    have "N - 1 = p * (d * c)"
      using m c by simp
    then have "(N - 1) div p = d * c"
      using p0 by simp
    then have "a ^ ((N - 1) div p) mod N = 1"
      using pow_d [of c] by simp
    then show False
      using gen [OF p(1) pd] by simp
  qed
  have a0: "0 < a"
  proof (rule ccontr)
    assume "\<not> 0 < a"
    then have "a = 0"
      by simp
    moreover have "N - 1 \<noteq> 0"
      using N by simp
    ultimately have "a ^ (N - 1) = 0"
      by simp
    with one have "0 mod N = (1::nat)"
      by (simp only:)
    then show False
      by simp
  qed
  have cop: "coprime a N"
  proof (rule coprimeI)
    fix c
    assume ca: "c dvd a" and cN: "c dvd N"
    have "a dvd a ^ (N - 1)"
      using N by (intro dvd_power) simp
    with ca have "c dvd a ^ (N - 1)"
      by (rule dvd_trans)
    moreover have "a ^ (N - 1) = N * (a ^ (N - 1) div N) + 1"
      using one mult_div_mod_eq [of N "a ^ (N - 1)"] by simp
    moreover have "c dvd N * (a ^ (N - 1) div N)"
      using cN by simp
    ultimately show "is_unit c"
      by (metis dvd_add_right_iff)
  qed
  have aux: "i = j" if "i \<le> j" "j < N - 1" "a ^ i mod N = a ^ j mod N" for i j
  proof (rule ccontr)
    assume "i \<noteq> j"
    then have lt: "i < j"
      using that by simp
    have "a ^ i \<le> a ^ j"
      using that(1) a0 by (intro power_increasing) simp_all
    then have "N dvd a ^ j - a ^ i"
      using that(3) mod_eq_dvd_iff_nat [of "a ^ i" "a ^ j" N] by simp
    moreover have split: "a ^ j = a ^ i * a ^ (j - i)"
      using that(1) by (simp flip: power_add)
    have "a ^ i * (a ^ (j - i) - 1) = a ^ i * a ^ (j - i) - a ^ i * 1"
      by (rule diff_mult_distrib2)
    then have "a ^ j - a ^ i = a ^ i * (a ^ (j - i) - 1)"
      by (simp only: split [symmetric] mult_1_right)
    ultimately have "N dvd a ^ i * (a ^ (j - i) - 1)"
      by (simp only:)
    moreover have "coprime N (a ^ i)"
      using cop by (simp add: coprime_commute)
    ultimately have "N dvd a ^ (j - i) - 1"
      by (simp add: coprime_dvd_mult_right_iff)
    moreover have "1 \<le> a ^ (j - i)"
      using a0 by simp
    ultimately have "a ^ (j - i) mod N = 1 mod N"
      using mod_eq_dvd_iff_nat [of 1 "a ^ (j - i)" N] by simp
    then have "?P (j - i)"
      using lt N by simp
    then have "d \<le> j - i"
      by (rule least)
    then show False
      using dN that(2) lt by simp
  qed
  have inj: "inj_on (\<lambda>i. a ^ i mod N) {0..<N - 1}"
  proof (rule inj_onI)
    fix i j
    assume ij: "i \<in> {0..<N - 1}" "j \<in> {0..<N - 1}" "a ^ i mod N = a ^ j mod N"
    show "i = j"
    proof (cases "i \<le> j")
      case True
      then show ?thesis
        using aux [of i j] ij by simp
    next
      case False
      then have "j \<le> i"
        by simp
      then show ?thesis
        using aux [of j i] ij by simp
    qed
  qed
  let ?S = "(\<lambda>i. a ^ i mod N) ` {0..<N - 1}"
  let ?U = "{x \<in> {1..<N}. coprime x N}"
  have SU: "?S \<subseteq> ?U"
  proof
    fix x
    assume "x \<in> ?S"
    then obtain i where x: "x = a ^ i mod N"
      by auto
    have cx: "coprime x N"
      using cop x N by simp
    have "x \<noteq> 0"
    proof
      assume "x = 0"
      with cx have "N = 1"
        by simp
      with N show False
        by simp
    qed
    moreover have "x < N"
      using x N by simp
    ultimately show "x \<in> ?U"
      using cx by simp
  qed
  have cardS: "card ?S = N - 1"
    using inj by (simp add: card_image)
  have "card ?S \<le> card ?U"
    using SU by (intro card_mono) simp_all
  moreover have "card ?U \<le> card {1..<N}"
    by (intro card_mono) auto
  ultimately have "card ?U = card {1..<N}"
    using cardS by simp
  then have U: "?U = {1..<N}"
    by (intro card_subset_eq) auto
  show ?thesis
    unfolding prime_nat_def
  proof (intro conjI allI impI)
    show "1 < N"
      by (fact N)
  next
    fix e
    assume e: "e dvd N"
    show "e = 1 \<or> e = N"
    proof (rule ccontr)
      assume "\<not> (e = 1 \<or> e = N)"
      then have ne: "e \<noteq> 1" "e \<noteq> N"
        by simp_all
      have "e \<noteq> 0"
      proof
        assume "e = 0"
        with e have "N = 0"
          by simp
        with N show False
          by simp
      qed
      moreover have "e \<le> N"
        using e N by (intro dvd_imp_le) simp_all
      ultimately have "e \<in> {1..<N}"
        using ne by simp
      then have "e \<in> ?U"
        by (simp only: U)
      then have "coprime e N"
        by simp
      then have "e = 1"
        using e by (intro coprime_common_divisor_nat [of e N e]) simp_all
      with ne show False
        by simp
    qed
  qed
qed

lemma square_iter_power: "square_iter N x k = x ^ (2 ^ k) mod N"
proof (induction k arbitrary: x)
  case 0
  show ?case
    by simp
next
  case (Suc k)
  have "square_iter N x (Suc k) = (x * x mod N) ^ (2 ^ k) mod N"
    using Suc.IH [of "x * x mod N"] by simp
  also have "\<dots> = (x * x) ^ (2 ^ k) mod N"
    by (rule power_mod)
  also have "(x * x) ^ (2 ^ k) = x ^ (2 ^ Suc k)"
    by (simp add: power_mult power2_eq_square)
  finally show ?case .
qed

lemmas square_iter_numeral =
  square_iter.simps(2) [of _ _ "pred_numeral k" for k, unfolded numeral_eq_Suc [symmetric]]

lemma prime_dvd_3_2p:
  assumes p: "prime_nat p" and dv: "p dvd 3 * 2 ^ k"
  shows "p = 2 \<or> p = 3"
proof (cases "p = 2")
  case True
  then show ?thesis ..
next
  case False
  have only: "d = 1 \<or> d = p" if "d dvd p" for d
    using p that unfolding prime_nat_def by blast
  have p1: "1 < p"
    using p unfolding prime_nat_def by simp
  have "coprime p 2"
  proof (rule coprimeI)
    fix c
    assume "c dvd p" "c dvd (2::nat)"
    then have "c = 1 \<or> c = p"
      using only by blast
    moreover have "c \<noteq> p"
    proof
      assume "c = p"
      with \<open>c dvd 2\<close> have "p \<le> 2"
        by (intro dvd_imp_le) simp_all
      with p1 False show False
        by simp
    qed
    ultimately show "is_unit c"
      by simp
  qed
  then have "coprime p (2 ^ k)"
    by simp
  then have "p dvd 3"
    using dv by (simp add: coprime_dvd_mult_left_iff)
  then have "p \<le> 3"
    by (intro dvd_imp_le) simp_all
  with p1 False show ?thesis
    by simp
qed

lemma differs_from_value:
  fixes x c d :: nat
  shows "x = c \<Longrightarrow> c \<noteq> d \<Longrightarrow> x \<noteq> d"
  by simp

lemma lucas_prime_exponent:
  fixes a N M :: nat
  assumes "1 < N" and "M = N - 1" and "a ^ M mod N = 1"
    and "\<And>p. prime_nat p \<Longrightarrow> p dvd M \<Longrightarrow> a ^ (M div p) mod N \<noteq> 1"
  shows "prime_nat N"
  using assms(1) assms(3,4) unfolding assms(2) by (rule lucas_prime)

lemma prime_3221225473: "prime_nat 3221225473"
proof (rule lucas_prime_exponent [where a = 5 and M = "3 * 2 ^ 30"])
  show "(1::nat) < 3221225473"
    by simp
next
  show "(3::nat) * 2 ^ 30 = 3221225473 - 1"
    by simp
next
  have cube: "(5::nat) ^ 3 = 125"
    by simp
  have "(5::nat) ^ (3 * 2 ^ 30) = 125 ^ (2 ^ 30)"
    unfolding cube [symmetric] by (rule power_mult)
  moreover have "(125::nat) ^ (2 ^ 30) mod 3221225473 = square_iter 3221225473 125 30"
    by (rule square_iter_power [symmetric])
  moreover have "square_iter 3221225473 125 30 = 1"
    by (simp add: square_iter_numeral)
  ultimately show "(5::nat) ^ (3 * 2 ^ 30) mod 3221225473 = 1"
    by (simp only:)
next
  fix p
  assume p: "prime_nat p" "p dvd 3 * 2 ^ 30"
  then have "p = 2 \<or> p = 3"
    by (rule prime_dvd_3_2p)
  then show "(5::nat) ^ (3 * 2 ^ 30 div p) mod 3221225473 \<noteq> 1"
  proof
    assume p2: "p = 2"
    have cube: "(5::nat) ^ 3 = 125"
      by simp
    have half: "(3::nat) * 2 ^ 30 div 2 = 3 * 2 ^ 29"
      by simp
    have "(5::nat) ^ (3 * 2 ^ 29) = 125 ^ (2 ^ 29)"
      unfolding cube [symmetric] by (rule power_mult)
    moreover have "(125::nat) ^ (2 ^ 29) mod 3221225473 = square_iter 3221225473 125 29"
      by (rule square_iter_power [symmetric])
    moreover have "square_iter 3221225473 125 29 = 3221225472"
      by (simp add: square_iter_numeral)
    ultimately have "(5::nat) ^ (3 * 2 ^ 29) mod 3221225473 = 3221225472"
      by (simp only:)
    then have "(5::nat) ^ (3 * 2 ^ 30 div 2) mod 3221225473 = 3221225472"
      by (simp only: half)
    then have "(5::nat) ^ (3 * 2 ^ 30 div 2) mod 3221225473 \<noteq> 1"
      by (rule differs_from_value) simp
    then show ?thesis
      unfolding p2 .
  next
    assume p3: "p = 3"
    have third: "(3::nat) * 2 ^ 30 div 3 = 2 ^ 30"
      by simp
    have "(5::nat) ^ (2 ^ 30) mod 3221225473 = square_iter 3221225473 5 30"
      by (rule square_iter_power [symmetric])
    moreover have "square_iter 3221225473 5 30 = 1610563584"
      by (simp add: square_iter_numeral)
    ultimately have "(5::nat) ^ (2 ^ 30) mod 3221225473 = 1610563584"
      by (simp only:)
    then have "(5::nat) ^ (3 * 2 ^ 30 div 3) mod 3221225473 = 1610563584"
      by (simp only: third)
    then have "(5::nat) ^ (3 * 2 ^ 30 div 3) mod 3221225473 \<noteq> 1"
      by (rule differs_from_value) simp
    then show ?thesis
      unfolding p3 .
  qed
qed

subsection \<open>The hash value\<close>

lemma universal_hash_unat:
  fixes A B key P m :: u32
  assumes "P \<noteq> 0" "m \<noteq> 0"
  shows "\<exists>h. hash_apply (UniversalHashFunction m P A B) key = Inr h
    \<and> unat h = ((unat A * unat key + unat B) mod 2 ^ 32 mod unat P) mod unat m
    \<and> (unat A * unat key + unat B < 2 ^ 32
         \<longrightarrow> unat h = ((unat A * unat key + unat B) mod unat P) mod unat m)"
proof -
  have "unat (A * key + B) = (unat (A * key) + unat B) mod 4294967296"
    by (simp add: unat_word_ariths)
  also have "unat (A * key) = (unat A * unat key) mod 4294967296"
    by (simp add: unat_word_ariths)
  also have "((unat A * unat key) mod 4294967296 + unat B) mod 4294967296
      = (unat A * unat key + unat B) mod 4294967296"
    by (rule mod_add_left_eq)
  finally have "unat (((A * key + B) mod P) mod m)
      = ((unat A * unat key + unat B) mod 4294967296 mod unat P) mod unat m"
    by (simp only: unat_mod)
  then show ?thesis
    using assms by auto
qed

text \<open>
  C8, as the claim states it, fails: the product and the sum of the hash are those of
  \<^verbatim>\<open>uint32_t\<close> and wrap around. For \<open>M = 8\<close> the prime is 11; with the draws 3 and 0 the
  key \<open>2 ^ 31\<close> hashes to 2, while the exact value of \<open>((3 * 2 ^ 31 + 0) mod 11) mod 8\<close>
  is 6.
\<close>

theorem universal_hash_wraps_around:
  "UpdateHashSize (UniversalHashFunction 0 0 0 0) 8 (3 ## sconst 0)
     = Inr (UniversalHashFunction 8 11 3 0, sconst 0)
   \<and> hash_apply (UniversalHashFunction 8 11 3 0) 2147483648 = Inr 2
   \<and> ((3 * 2147483648 + 0) mod 11) mod 8 = (6::nat)"
  by (simp add: UpdateHashSize_def least_prime_larger_than.simps is_prime_def
      is_prime_loop.simps)

text \<open>
  C8, amended. For every table size \<open>M\<close> from 3 up to 3221225472, \<^verbatim>\<open>UpdateHashSize(M)\<close> of
  universal hashing returns, its \<open>P\<close> is the least prime strictly greater than \<open>M\<close>, and
  \<open>A\<close> and \<open>B\<close> are the two values drawn from \<^verbatim>\<open>rand()\<close>, each reduced modulo \<open>P\<close> and so
  below \<open>P\<close>. For every key, and whatever
  \<open>A\<close> and \<open>B\<close> are, the hash is \<open>((A * key + B) mod 2 ^ 32 mod P) mod M\<close>: the product and
  the sum are taken modulo \<open>2 ^ 32\<close>. Whenever \<open>A * key + B < 2 ^ 32\<close>, this is the value
  \<open>((A * key + B) mod P) mod M\<close> of exact arithmetic.
\<close>

theorem universal_hash_value:
  assumes "3 \<le> unat m" and "unat m < 3221225473"
  shows "\<exists>P. UpdateHashSize (UniversalHashFunction M0 P0 A0 B0) m rs
        = Inr (UniversalHashFunction m P (shd rs mod P) (shd (stl rs) mod P), stl (stl rs))
      \<and> prime_nat (unat P) \<and> unat m < unat P
      \<and> (\<forall>p. unat m < p \<and> p < unat P \<longrightarrow> \<not> prime_nat p)
      \<and> shd rs mod P < P \<and> shd (stl rs) mod P < P
      \<and> (\<forall>A B key. \<exists>h. hash_apply (UniversalHashFunction m P A B) key = Inr h
            \<and> unat h = ((unat A * unat key + unat B) mod 2 ^ 32 mod unat P) mod unat m
            \<and> (unat A * unat key + unat B < 2 ^ 32
                 \<longrightarrow> unat h = ((unat A * unat key + unat B) mod unat P) mod unat m))"
proof -
  have q: "(3221225473::nat) < 4294180900"
    by simp
  obtain P where P: "least_prime_larger_than m = Inr P" "prime_nat (unat P)"
      "unat m < unat P" "\<forall>p. unat m < p \<and> p < unat P \<longrightarrow> \<not> prime_nat p"
    using least_prime_larger_than_least [OF prime_3221225473 q assms] by blast
  have P0: "P \<noteq> 0"
    using P(3) by auto
  have m0: "m \<noteq> 0"
    using assms(1) by auto
  have "0 < P"
    using P0 by (simp add: word_greater_zero_iff)
  then have draws: "shd rs mod P < P" "shd (stl rs) mod P < P"
    by (simp_all add: word_mod_less_divisor)
  have update: "UpdateHashSize (UniversalHashFunction M0 P0 A0 B0) m rs
      = Inr (UniversalHashFunction m P (shd rs mod P) (shd (stl rs) mod P), stl (stl rs))"
    using P(1) P0 by (simp add: UpdateHashSize_def)
  have hash: "\<forall>A B key. \<exists>h. hash_apply (UniversalHashFunction m P A B) key = Inr h
      \<and> unat h = ((unat A * unat key + unat B) mod 2 ^ 32 mod unat P) mod unat m
      \<and> (unat A * unat key + unat B < 2 ^ 32
           \<longrightarrow> unat h = ((unat A * unat key + unat B) mod unat P) mod unat m)"
    using universal_hash_unat [OF P0 m0] by (intro allI)
  show ?thesis
    by (intro exI [of _ P] conjI update P(2,3,4) draws hash)
qed

theorem universal_hash_value_witness:
  "3 \<le> unat (8 :: u32) \<and> unat (8 :: u32) < 3221225473
   \<and> (\<exists>P. UpdateHashSize (UniversalHashFunction 0 0 0 0) 8 (3 ## sconst 0)
        = Inr (UniversalHashFunction 8 P (shd (3 ## sconst 0) mod P)
                 (shd (stl (3 ## sconst 0)) mod P), stl (stl (3 ## sconst 0)))
      \<and> prime_nat (unat P) \<and> unat (8 :: u32) < unat P
      \<and> (\<forall>p. unat (8 :: u32) < p \<and> p < unat P \<longrightarrow> \<not> prime_nat p)
      \<and> shd (3 ## sconst 0) mod P < P \<and> shd (stl (3 ## sconst 0)) mod P < P
      \<and> (\<forall>A B key. \<exists>h. hash_apply (UniversalHashFunction 8 P A B) key = Inr h
            \<and> unat h = ((unat A * unat key + unat B) mod 2 ^ 32 mod unat P) mod unat (8 :: u32)
            \<and> (unat A * unat key + unat B < 2 ^ 32
                 \<longrightarrow> unat h = ((unat A * unat key + unat B) mod unat P) mod unat (8 :: u32))))"
proof -
  have a: "3 \<le> unat (8 :: u32)"
    by simp
  have b: "unat (8 :: u32) < 3221225473"
    by simp
  show ?thesis
    by (intro conjI a b universal_hash_value [OF a b])
qed
section \<open>A probe loop that does not end\<close>

lemma tombstones_reachable:
  "and_then (new_OpenTable (LinearProbingHashFunction 8 (DivisionHashFunction 8)) (sconst 0))
     (\<lambda>t. and_then (insert_all_open 9 [0, 1, 2, 3] t)
       (\<lambda>t. and_then (remove_all_open 9 [0, 1, 2, 3] t)
         (\<lambda>t. and_then (insert_all_open 9 [4, 5, 6, 7] t)
           (\<lambda>t. remove_all_open 9 [4, 5, 6, 7] t))))
   = Inr tombstones"
  by (simp add: tombstones_def and_then_def table_defs fuel_numeral)

lemma unat_mod_8: "unat ((x :: u32) mod 8) < 8"
  by (simp add: unat_mod)

lemma insert_loop_tombstones: "insert_loop fuel tombstones 8 probe = Inl OutOfFuel"
proof (induction fuel arbitrary: probe)
  case 0
  show ?case
    by simp
next
  case (Suc fuel)
  have "ot_hashTable tombstones ! unat (probe mod 8) = DEL_MARKER"
    using unat_mod_8 [of probe] by (simp add: tombstones_def)
  moreover have "probe_apply (ot_prHashFunc tombstones) 8 probe = Inr (probe mod 8)"
    by (simp add: tombstones_def)
  moreover have "unat (probe mod 8) < length (ot_hashTable tombstones)"
    using unat_mod_8 [of probe] by (simp add: tombstones_def)
  ultimately show ?case
    using Suc.IH [of "probe + 1"] by (simp add: DEL_MARKER_def FREE_MARKER_def)
qed

lemma insert_open_tombstones: "insert_open fuel tombstones 8 = Inl OutOfFuel"
proof (cases fuel)
  case 0
  then show ?thesis
    by simp
next
  case (Suc n)
  have "\<not> load_factor_ge_half tombstones"
    by (simp add: load_factor_ge_half_def tombstones_def)
  then show ?thesis
    using Suc insert_loop_tombstones [of n 0] by simp
qed

text \<open>
  C3. The probe loop of \<^verbatim>\<open>insert\<close> stops at the key or at a free slot only, and a
  tombstone is neither. After inserting and removing the keys 0 to 3 and then the keys 4
  to 7, the eight slots of the table hold tombstones and \<open>num_entries\<close> is 0, so that
  \<^verbatim>\<open>insert(8)\<close> does not grow the table and then probes without end: whatever the number
  of steps granted, the call has not returned.
\<close>

theorem insert_open_never_returns:
  "and_then (new_OpenTable (LinearProbingHashFunction 8 (DivisionHashFunction 8)) (sconst 0))
     (\<lambda>t. and_then (insert_all_open 9 [0, 1, 2, 3] t)
       (\<lambda>t. and_then (remove_all_open 9 [0, 1, 2, 3] t)
         (\<lambda>t. and_then (insert_all_open 9 [4, 5, 6, 7] t)
           (\<lambda>t. and_then (remove_all_open 9 [4, 5, 6, 7] t)
             (\<lambda>t. insert_open fuel t 8)))))
   = Inl OutOfFuel"
proof -
  have "and_then (new_OpenTable (LinearProbingHashFunction 8 (DivisionHashFunction 8)) (sconst 0))
     (\<lambda>t. and_then (insert_all_open 9 [0, 1, 2, 3] t)
       (\<lambda>t. and_then (remove_all_open 9 [0, 1, 2, 3] t)
         (\<lambda>t. and_then (insert_all_open 9 [4, 5, 6, 7] t)
           (\<lambda>t. and_then (remove_all_open 9 [4, 5, 6, 7] t)
             (\<lambda>t. insert_open fuel t 8)))))
    = and_then (and_then (new_OpenTable (LinearProbingHashFunction 8 (DivisionHashFunction 8)) (sconst 0))
     (\<lambda>t. and_then (insert_all_open 9 [0, 1, 2, 3] t)
       (\<lambda>t. and_then (remove_all_open 9 [0, 1, 2, 3] t)
         (\<lambda>t. and_then (insert_all_open 9 [4, 5, 6, 7] t)
           (\<lambda>t. remove_all_open 9 [4, 5, 6, 7] t))))) (\<lambda>t. insert_open fuel t 8)"
    by (simp add: and_then_def split: sum.splits)
  also have "\<dots> = insert_open fuel tombstones 8"
    by (simp only: tombstones_reachable) (simp add: and_then_def)
  finally show ?thesis
    by (simp only: insert_open_tombstones)
qed

end
